theory Spec2Isabelle
  imports Main "HOL-Library.Sublist"
begin

section \<open>Go strings and the standard-library functions that main.go calls\<close>

text \<open>
  A Go string is a sequence of bytes: \<open>string\<close> (a \<open>char list\<close>) here. The characters
  that main.go names explicitly:
\<close>

abbreviation LF :: char where "LF \<equiv> CHR 0x0A"
abbreviation CR :: char where "CR \<equiv> CHR 0x0D"
abbreviation TAB :: char where "TAB \<equiv> CHR 0x09"
abbreviation FF :: char where "FF \<equiv> CHR 0x0C"
abbreviation SP :: char where "SP \<equiv> CHR 0x20"

subsection \<open>unicode/utf8\<close>

text \<open>
  The regexp and io/fs packages read a string rune by rune. \<open>DecodeRuneInString\<close>
  returns the first rune and its width in bytes; an invalid encoding is the rune
  \<open>RuneError\<close> of width 1. \<open>first\<close> is utf8's table of lead bytes: the size of the
  sequence and the accepted range of its second byte. The masks of the Go code are
  written as arithmetic: \<open>b & 0x1F\<close> is \<open>b mod 32\<close>, \<open>x << 6\<close> is \<open>x * 64\<close>, and
  \<open>|\<close> of disjoint bit fields is \<open>+\<close>.
\<close>

definition RuneError :: nat where
  "RuneError = 0xFFFD"

definition first :: "nat \<Rightarrow> (nat \<times> nat \<times> nat) option" where
  "first b =
     (if b < 0xC2 then None
      else if b \<le> 0xDF then Some (2, 0x80, 0xBF)
      else if b = 0xE0 then Some (3, 0xA0, 0xBF)
      else if b \<le> 0xEC then Some (3, 0x80, 0xBF)
      else if b = 0xED then Some (3, 0x80, 0x9F)
      else if b \<le> 0xEF then Some (3, 0x80, 0xBF)
      else if b = 0xF0 then Some (4, 0x90, 0xBF)
      else if b \<le> 0xF3 then Some (4, 0x80, 0xBF)
      else if b = 0xF4 then Some (4, 0x80, 0x8F)
      else None)"

definition byte_at :: "string \<Rightarrow> nat \<Rightarrow> nat" where
  "byte_at s i = of_char (s ! i)"

definition DecodeRuneInString :: "string \<Rightarrow> nat \<times> nat" where
  "DecodeRuneInString s =
     (if s = [] then (RuneError, 0)
      else let s0 = byte_at s 0 in
        if s0 < 0x80 then (s0, 1)
        else (case first s0 of
            None \<Rightarrow> (RuneError, 1)
          | Some (sz, lo, hi) \<Rightarrow>
              if length s < sz then (RuneError, 1)
              else let s1 = byte_at s 1 in
                if s1 < lo \<or> hi < s1 then (RuneError, 1)
                else if sz \<le> 2 then ((s0 mod 32) * 64 + s1 mod 64, 2)
                else let s2 = byte_at s 2 in
                  if s2 < 0x80 \<or> 0xBF < s2 then (RuneError, 1)
                  else if sz \<le> 3 then
                    ((s0 mod 16) * 4096 + (s1 mod 64) * 64 + s2 mod 64, 3)
                  else let s3 = byte_at s 3 in
                    if s3 < 0x80 \<or> 0xBF < s3 then (RuneError, 1)
                    else ((s0 mod 8) * 262144 + (s1 mod 64) * 4096
                            + (s2 mod 64) * 64 + s3 mod 64, 4)))"

definition runeWidth :: "string \<Rightarrow> nat" where
  "runeWidth s = snd (DecodeRuneInString s)"

lemma runeWidth_pos: "s \<noteq> [] \<Longrightarrow> 0 < runeWidth s"
  by (auto simp: runeWidth_def DecodeRuneInString_def Let_def split: option.splits)

lemma first_size: "first b = Some (sz, lo, hi) \<Longrightarrow> sz = 2 \<or> sz = 3 \<or> sz = 4"
  by (auto simp: first_def split: if_splits)

lemma runeWidth_le: "runeWidth s \<le> length s"
proof (cases s)
  case Nil
  then show ?thesis by (simp add: runeWidth_def DecodeRuneInString_def)
next
  case (Cons c cs)
  show ?thesis
  proof (cases "first (byte_at s 0)")
    case None
    then show ?thesis using Cons by (simp add: runeWidth_def DecodeRuneInString_def Let_def)
  next
    case (Some t)
    obtain sz lo hi where t: "t = (sz, lo, hi)" by (cases t)
    from first_size[of "byte_at s 0" sz lo hi] Some t
    have "sz = 2 \<or> sz = 3 \<or> sz = 4" by simp
    then show ?thesis using Cons Some t
      by (auto simp: runeWidth_def DecodeRuneInString_def Let_def Suc_le_eq)
  qed
qed

function ValidString :: "string \<Rightarrow> bool" where
  "ValidString s =
     (if s = [] then True
      else if DecodeRuneInString s = (RuneError, 1) then False
      else ValidString (drop (runeWidth s) s))"
  by pat_completeness auto
termination
  by (relation "measure length") (auto simp: runeWidth_pos)

declare ValidString.simps [simp del]

subsection \<open>strings and fmt\<close>

text \<open>
  \<open>strings.TrimLeft\<close> with a cutset of ASCII characters removes the leading bytes that
  are in the cutset; \<open>strings.HasPrefix s p\<close> is \<open>prefix p s\<close>; \<open>strings.Join\<close> puts the
  separator between the elements. \<open>strings.Replace s old new (-1)\<close>, for a non-empty
  \<open>old\<close> (main.go only passes \<open>"/"\<close>, \<open>"\r\n"\<close>, \<open>"\r"\<close> and \<open>"\n"\<close>), replaces the
  non-overlapping occurrences of \<open>old\<close> from left to right.
\<close>

definition TrimLeft :: "string \<Rightarrow> string \<Rightarrow> string" where
  "TrimLeft s cutset = dropWhile (\<lambda>c. c \<in> set cutset) s"

definition HasPrefix :: "string \<Rightarrow> string \<Rightarrow> bool" where
  "HasPrefix s p = prefix p s"

fun Join :: "string list \<Rightarrow> string \<Rightarrow> string" where
  "Join [] sep = []"
| "Join [x] sep = x"
| "Join (x # y # ys) sep = x @ sep @ Join (y # ys) sep"

function Replace :: "string \<Rightarrow> string \<Rightarrow> string \<Rightarrow> string" where
  "Replace s old new =
     (if s = [] \<or> old = [] then s
      else if prefix old s then new @ Replace (drop (length old) s) old new
      else hd s # Replace (tl s) old new)"
  by pat_completeness auto
termination
  by (relation "measure (\<lambda>(s, old, new). length s)") auto

declare Replace.simps [simp del]

subsection \<open>regexp\<close>

text \<open>
  The part of Go's regexp package that main.go uses: four patterns without anchors or
  empty-width assertions, \<open>Split\<close> and \<open>ReplaceAllString\<close>. A pattern is a syntax
  tree; \<open>Literal\<close> and \<open>CharClass\<close> consume one rune, a class being a list of
  inclusive ranges, possibly negated.

  Go's matching is leftmost-first: among the matches that start at the leftmost
  possible position it takes the one a backtracking search finds first, trying the
  alternatives of \<open>|\<close> from left to right and one more iteration of \<open>*\<close> before none.
  \<open>ends re s\<close> lists, in that order of preference, what is left of \<open>s\<close> after each way
  of matching \<open>re\<close> at the start of \<open>s\<close>; the first element is the match that Go
  reports. An iteration of \<open>*\<close> that consumes nothing is not repeated.
\<close>

datatype regex =
    Literal nat
  | CharClass bool "(nat \<times> nat) list"
  | Concat regex regex
  | Alternate regex regex
  | Star regex
  | Capture regex

definition inRanges :: "(nat \<times> nat) list \<Rightarrow> nat \<Rightarrow> bool" where
  "inRanges rs r = list_ex (\<lambda>(lo, hi). lo \<le> r \<and> r \<le> hi) rs"

function ends :: "regex \<Rightarrow> string \<Rightarrow> string list" where
  "ends (Literal r) s =
     (if s \<noteq> [] \<and> fst (DecodeRuneInString s) = r then [drop (runeWidth s) s] else [])"
| "ends (CharClass neg rs) s =
     (if s \<noteq> [] \<and> inRanges rs (fst (DecodeRuneInString s)) \<noteq> neg
      then [drop (runeWidth s) s] else [])"
| "ends (Concat a b) s = concat (map (ends b) (ends a s))"
| "ends (Alternate a b) s = ends a s @ ends b s"
| "ends (Star a) s =
     concat (map (\<lambda>t. if length t < length s then ends (Star a) t else []) (ends a s)) @ [s]"
| "ends (Capture a) s = ends a s"
  by pat_completeness auto
termination
  by (relation "measures [\<lambda>(re, s). size re, \<lambda>(re, s). length s]") auto

declare ends.simps(5) [simp del]

text \<open>
  \<open>search re s\<close> is the unanchored search: the offset and the length of the leftmost
  match in \<open>s\<close>, the start moving forward rune by rune. \<open>doExecute re s pos\<close> is the
  search from the byte position \<open>pos\<close>, in positions of \<open>s\<close>.
\<close>

function search :: "regex \<Rightarrow> string \<Rightarrow> (nat \<times> nat) option" where
  "search re s =
     (case ends re s of
        t # ts \<Rightarrow> Some (0, length s - length t)
      | [] \<Rightarrow>
          if s = [] then None
          else map_option (\<lambda>(k, n). (runeWidth s + k, n)) (search re (drop (runeWidth s) s)))"
  by pat_completeness auto
termination
  by (relation "measure (\<lambda>(re, s). length s)") (auto simp: runeWidth_pos)

declare search.simps [simp del]

definition doExecute :: "regex \<Rightarrow> string \<Rightarrow> nat \<Rightarrow> (nat \<times> nat) option" where
  "doExecute re s pos = map_option (\<lambda>(k, n). (pos + k, pos + k + n)) (search re (drop pos s))"

lemma doExecute_bounds:
  "doExecute re s pos = Some (m0, m1) \<Longrightarrow> pos \<le> m0 \<and> m0 \<le> m1"
  by (auto simp: doExecute_def)

text \<open>
  \<open>allMatches\<close> is the loop behind \<open>FindAllStringIndex\<close>: an empty match is not
  accepted right after the previous match, and after an empty match the position moves
  one rune forward. Its bound on the number of matches (\<open>len(s) + 1\<close> for \<open>n = -1\<close>) is
  never reached and is left out. \<open>Split re s\<close> is \<open>re.Split(s, -1)\<close> for a pattern
  whose source text is not empty; \<open>splitLoop\<close> is its loop over the matches.
\<close>

function allMatches :: "regex \<Rightarrow> string \<Rightarrow> nat \<Rightarrow> int \<Rightarrow> (nat \<times> nat) list" where
  "allMatches re s pos prevMatchEnd =
     (if length s < pos then []
      else case doExecute re s pos of
          None \<Rightarrow> []
        | Some (m0, m1) \<Rightarrow>
            if m1 = pos then
              (let accept = (int m0 \<noteq> prevMatchEnd);
                   width = runeWidth (drop pos s);
                   pos' = (if 0 < width then pos + width else length s + 1)
               in (if accept then [(m0, m1)] else []) @ allMatches re s pos' (int m1))
            else (m0, m1) # allMatches re s m1 (int m1))"
  by pat_completeness auto
termination
  by (relation "measure (\<lambda>(re, s, pos, prev). length s + 1 - pos)")
     (auto dest: doExecute_bounds)

declare allMatches.simps [simp del]

fun splitLoop :: "string \<Rightarrow> (nat \<times> nat) list \<Rightarrow> nat \<Rightarrow> nat \<Rightarrow> string list \<Rightarrow> string list" where
  "splitLoop s [] beg endp strings =
     (if endp \<noteq> length s then strings @ [drop beg s] else strings)"
| "splitLoop s ((m0, m1) # matches) beg endp strings =
     splitLoop s matches m1 m0
       (if m1 \<noteq> 0 then strings @ [take (m0 - beg) (drop beg s)] else strings)"

definition Split :: "regex \<Rightarrow> string \<Rightarrow> string list" where
  "Split re s = (if s = [] then [[]] else splitLoop s (allMatches re s 0 (- 1)) 0 0 [])"

text \<open>
  \<open>replaceAll\<close> is the loop of \<open>ReplaceAllString\<close>, for a replacement text without
  \<open>$\<close> (main.go passes \<open>"-"\<close> and \<open>" "\<close>), which is inserted as it is.
\<close>

function replaceAll :: "regex \<Rightarrow> string \<Rightarrow> string \<Rightarrow> nat \<Rightarrow> nat \<Rightarrow> string \<Rightarrow> string" where
  "replaceAll re src repl lastMatchEnd searchPos buf =
     (if length src < searchPos then buf @ drop lastMatchEnd src
      else case doExecute re src searchPos of
          None \<Rightarrow> buf @ drop lastMatchEnd src
        | Some (a0, a1) \<Rightarrow>
            (let buf1 = buf @ take (a0 - lastMatchEnd) (drop lastMatchEnd src);
                 buf2 = (if lastMatchEnd < a1 \<or> a0 = 0 then buf1 @ repl else buf1);
                 width = runeWidth (drop searchPos src);
                 searchPos' =
                   (if a1 < searchPos + width then searchPos + width
                    else if a1 < searchPos + 1 then searchPos + 1
                    else a1)
             in replaceAll re src repl a1 searchPos' buf2))"
  by pat_completeness auto
termination
  by (relation "measure (\<lambda>(re, src, repl, l, p, buf). length src + 1 - p)")
     (auto dest: doExecute_bounds)

declare replaceAll.simps [simp del]

definition ReplaceAllString :: "regex \<Rightarrow> string \<Rightarrow> string \<Rightarrow> string" where
  "ReplaceAllString re src repl = replaceAll re src repl 0 0 []"

text \<open>
  \<open>x+\<close> is \<open>xx*\<close> and \<open>x{2,}\<close> is \<open>xxx*\<close>. \<open>perlSpace\<close> is the class \<open>\s\<close>: tab,
  newline, form feed, carriage return and space. Then the four patterns of main.go.
\<close>

definition Plus :: "regex \<Rightarrow> regex" where
  "Plus re = Concat re (Star re)"

definition RepeatMin2 :: "regex \<Rightarrow> regex" where
  "RepeatMin2 re = Concat re (Concat re (Star re))"

definition perlSpace :: regex where
  "perlSpace = CharClass False [(0x09, 0x0A), (0x0C, 0x0D), (0x20, 0x20)]"

definition paraPattern :: regex where
  "paraPattern =
     Concat (Capture (Alternate (Literal 0x0A)
                     (Alternate (Literal 0x0D) (Concat (Literal 0x0D) (Literal 0x0A)))))
            (Star perlSpace)"

definition spacePattern :: regex where
  "spacePattern = Plus (Capture (Literal 0x20))"

definition multiNewlinePattern :: regex where
  "multiNewlinePattern =
     RepeatMin2 (Capture (Alternate (Concat (Literal 0x0D) (Literal 0x0A))
                         (Alternate (Literal 0x0D) (Literal 0x0A))))"

definition specialCharsPattern :: regex where
  "specialCharsPattern =
     CharClass True [(0x61, 0x7A), (0x41, 0x5A), (0x30, 0x39), (0x5F, 0x5F), (0x2D, 0x2D)]"

section \<open>The descriptor model (protoreflect, protogen)\<close>

text \<open>
  A \<open>protoreflect.Descriptor\<close> is read through \<open>Name()\<close>, \<open>FullName()\<close> and
  \<open>Parent()\<close>; the parent of a file descriptor is nil. \<open>Kind\<close> is the kind of a field,
  and \<open>Kind_String\<close> its \<open>String()\<close> method, which \<open>fmt.Sprint\<close> calls.
\<close>

datatype descriptor =
  Descriptor (Name: string) (FullName: string) (Parent: "descriptor option")

datatype Kind =
    BoolKind | EnumKind | Int32Kind | Sint32Kind | Uint32Kind | Int64Kind
  | Sint64Kind | Uint64Kind | Sfixed32Kind | Fixed32Kind | FloatKind
  | Sfixed64Kind | Fixed64Kind | DoubleKind | StringKind | BytesKind
  | MessageKind | GroupKind

fun Kind_String :: "Kind \<Rightarrow> string" where
  "Kind_String BoolKind = ''bool''"
| "Kind_String EnumKind = ''enum''"
| "Kind_String Int32Kind = ''int32''"
| "Kind_String Sint32Kind = ''sint32''"
| "Kind_String Uint32Kind = ''uint32''"
| "Kind_String Int64Kind = ''int64''"
| "Kind_String Sint64Kind = ''sint64''"
| "Kind_String Uint64Kind = ''uint64''"
| "Kind_String Sfixed32Kind = ''sfixed32''"
| "Kind_String Fixed32Kind = ''fixed32''"
| "Kind_String FloatKind = ''float''"
| "Kind_String Sfixed64Kind = ''sfixed64''"
| "Kind_String Fixed64Kind = ''fixed64''"
| "Kind_String DoubleKind = ''double''"
| "Kind_String StringKind = ''string''"
| "Kind_String BytesKind = ''bytes''"
| "Kind_String MessageKind = ''message''"
| "Kind_String GroupKind = ''group''"

record Message =
  Message_Desc :: descriptor

record Enum =
  Enum_Desc :: descriptor

text \<open>
  A \<open>protogen.Field\<close>: \<open>Field_Kind\<close> is \<open>f.Desc.Kind()\<close>; \<open>Field_Message\<close> and
  \<open>Field_Enum\<close> are the pointers \<open>f.Message\<close> and \<open>f.Enum\<close>, \<open>None\<close> for nil.
\<close>

record Field =
  Field_Desc :: descriptor
  Field_Kind :: Kind
  Field_Message :: "Message option"
  Field_Enum :: "Enum option"

section \<open>Errors\<close>

text \<open>
  \<open>NilPointerDereference\<close> is the runtime panic of reading a field through a nil
  pointer. \<open>PathError op path\<close> is the \<open>fs.PathError\<close> with \<open>ErrInvalid\<close> that \<open>fs.Sub\<close>
  returns, \<open>NoFilesError pattern\<close> the error of \<open>ParseFS\<close> for a pattern that matches
  no file, \<open>TemplateError msg\<close> any error of the template library's parser or
  executor, and \<open>WrapError filename err\<close> the value of
  \<open>fmt.Errorf("issue generating %v: %w", filename, err)\<close>.
\<close>

datatype error =
    NilPointerDereference
  | PathError string string
  | NoFilesError string
  | TemplateError string
  | WrapError string error

fun Error :: "error \<Rightarrow> string" where
  "Error NilPointerDereference =
     ''runtime error: invalid memory address or nil pointer dereference''"
| "Error (PathError op path) = op @ '' '' @ path @ '': invalid argument''"
| "Error (NoFilesError pattern) =
     ''template: pattern matches no files: `'' @ pattern @ ''`''"
| "Error (TemplateError msg) = msg"
| "Error (WrapError filename err) = ''issue generating '' @ filename @ '': '' @ Error err"

fun Unwrap :: "error \<Rightarrow> error option" where
  "Unwrap (WrapError filename err) = Some err"
| "Unwrap e = None"

section \<open>The template helpers of templateFuncMap\<close>

definition longName :: "descriptor \<Rightarrow> string" where
  "longName d =
     (case Parent d of
        None \<Rightarrow> Name d
      | Some p \<Rightarrow>
          (case Parent p of
             None \<Rightarrow> Name d
           | Some g \<Rightarrow> Name p @ ''.'' @ Name d))"

definition grandparent :: "descriptor \<Rightarrow> descriptor option" where
  "grandparent d = (case Parent d of None \<Rightarrow> None | Some p \<Rightarrow> Parent p)"

fun field_type :: "Field option \<Rightarrow> error + string" where
  "field_type None = Inl NilPointerDereference"
| "field_type (Some f) =
     (case Field_Message f of
        Some m \<Rightarrow> Inr (longName (Message_Desc m))
      | None \<Rightarrow>
          (case Field_Enum f of
             Some e \<Rightarrow> Inr (longName (Enum_Desc e))
           | None \<Rightarrow> Inr (Kind_String (Field_Kind f))))"

fun full_field_type :: "Field option \<Rightarrow> error + string" where
  "full_field_type None = Inl NilPointerDereference"
| "full_field_type (Some f) =
     (case Field_Message f of
        Some m \<Rightarrow> Inr (FullName (Message_Desc m))
      | None \<Rightarrow>
          (case Field_Enum f of
             Some e \<Rightarrow> Inr (FullName (Enum_Desc e))
           | None \<Rightarrow> Inr (Kind_String (Field_Kind f))))"

fun is_primitive :: "Field option \<Rightarrow> error + bool" where
  "is_primitive None = Inl NilPointerDereference"
| "is_primitive (Some f) =
     (let k = Field_Kind f;
          nonPrim = (k = EnumKind \<or> k = MessageKind \<or> k = GroupKind)
      in Inr (\<not> nonPrim))"

fun message_type :: "Message option \<Rightarrow> error + string" where
  "message_type None = Inr ''(none)''"
| "message_type (Some f) = Inr (Name (Message_Desc f))"

fun full_message_type :: "Message option \<Rightarrow> error + string" where
  "full_message_type None = Inl NilPointerDereference"
| "full_message_type (Some f) = Inr (FullName (Message_Desc f))"

text \<open>
  \<open>description\<close> and \<open>anchor\<close> take any value and print it with \<open>fmt.Sprint\<close>, which
  is the parameter \<open>sprint\<close>; for a string argument it is the identity.
\<close>

definition description :: "('a \<Rightarrow> string) \<Rightarrow> 'a \<Rightarrow> string" where
  "description sprint s =
     (let val = TrimLeft (sprint s) (''*/'' @ [LF] @ '' '')
      in if HasPrefix val ''@exclude'' then [] else val)"

text \<open>
  The filters. The loop of \<open>nobrFilter\<close> over the paragraphs is a \<open>map\<close>.
\<close>

definition anchor :: "('a \<Rightarrow> string) \<Rightarrow> 'a \<Rightarrow> string" where
  "anchor sprint str =
     ReplaceAllString specialCharsPattern (Replace (sprint str) ''/'' ''_'') ''-''"

definition pFilter :: "string \<Rightarrow> string" where
  "pFilter content =
     (let paragraphs = Split paraPattern content
      in ''<p>'' @ Join paragraphs ''</p><p>'' @ ''</p>'')"

definition paraFilter :: "string \<Rightarrow> string" where
  "paraFilter content =
     (let paragraphs = Split paraPattern content
      in ''<para>'' @ Join paragraphs ''</para><para>'' @ ''</para>'')"

definition nobrFilter :: "string \<Rightarrow> string" where
  "nobrFilter content =
     (let normalized = Replace content [CR, LF] [LF];
          paragraphs = Split multiNewlinePattern normalized;
          paragraphs' = map (\<lambda>p.
             let withoutCR = Replace p [CR] '' '';
                 withoutLF = Replace withoutCR [LF] '' ''
             in ReplaceAllString spacePattern withoutLF '' '') paragraphs
      in Join paragraphs' [LF, LF])"

section \<open>Template resolution and the generation driver\<close>

record GenOpts =
  Format :: string
  TemplateDir :: string

text \<open>
  A file system (\<open>fs.FS\<close>) maps the name of a regular file to its contents. \<open>ValidPath\<close>
  is \<open>fs.ValidPath\<close>: valid UTF-8, and either \<open>"."\<close> or slash-separated elements none
  of which is empty, \<open>"."\<close> or \<open>".."\<close>.
\<close>

type_synonym FS = "string \<Rightarrow> string option"

function validElems :: "string \<Rightarrow> bool" where
  "validElems name =
     (let elem = takeWhile (\<lambda>c. c \<noteq> CHR ''/'') name;
          rest = dropWhile (\<lambda>c. c \<noteq> CHR ''/'') name
      in if elem = [] \<or> elem = ''.'' \<or> elem = ''..'' then False
         else if rest = [] then True
         else validElems (tl rest))"
  by pat_completeness auto
termination
proof (relation "measure length")
  fix name elem rest :: string
  assume r: "rest = dropWhile (\<lambda>c. c \<noteq> CHR ''/'') name" and ne: "rest \<noteq> []"
  have "length rest \<le> length name"
    unfolding r by (rule length_dropWhile_le)
  moreover have "length (tl rest) < length rest"
    using ne by (cases rest) auto
  ultimately show "(tl rest, name) \<in> measure length" by simp
qed simp

declare validElems.simps [simp del]

definition ValidPath :: "string \<Rightarrow> bool" where
  "ValidPath name =
     (if \<not> ValidString name then False
      else if name = ''.'' then True
      else validElems name)"

text \<open>
  \<open>os.DirFS dir\<close> opens \<open>name\<close> as the file \<open>dir/name\<close> of the operating system's file
  tree (\<open>root\<close>), and refuses an invalid name. \<open>fs.Sub fsys dir\<close> refuses an invalid
  \<open>dir\<close>, returns \<open>fsys\<close> itself for \<open>"."\<close>, and otherwise a file system that opens
  \<open>name\<close> as \<open>path.Join(dir, name)\<close> in \<open>fsys\<close>: for a valid \<open>dir\<close> and a valid \<open>name\<close>
  other than \<open>"."\<close> that is \<open>dir/name\<close>. Neither \<open>os.DirFS\<close> nor \<open>embed.FS\<close> has a
  \<open>Sub\<close> method of its own.
\<close>

definition DirFS :: "FS \<Rightarrow> string \<Rightarrow> FS" where
  "DirFS root dir = (\<lambda>name. if ValidPath name then root (dir @ ''/'' @ name) else None)"

definition Sub :: "FS \<Rightarrow> string \<Rightarrow> error + FS" where
  "Sub fsys dir =
     (if \<not> ValidPath dir then Inl (PathError ''sub'' dir)
      else if dir = ''.'' then Inr fsys
      else Inr (\<lambda>name. if ValidPath name then fsys (dir @ ''/'' @ name) else None))"

text \<open>
  What main.go takes from its environment: the files of the operating system, the
  embedded \<open>templates/*\<close>, and the template library (html/template with sprig), whose
  parser and executor are parameters. \<open>globMeta\<close> is \<open>fs.Glob\<close> on a pattern with one
  of the metacharacters (star, question mark, opening bracket, backslash); on any
  other pattern \<open>fs.Glob\<close> returns the pattern itself when a file of that name exists
  and nothing otherwise. The name of the directory that \<open>fs.Sub\<close> was given is part of
  the pattern that \<open>fs.Glob\<close> expands; it is taken to hold no metacharacter. \<open>execute\<close>
  returns the bytes it wrote to the generated file and the error, if any.
\<close>

record File =
  Generate :: bool
  GeneratedFilenamePrefix :: string
  GoImportPath :: string

record 't Env =
  osFiles :: FS
  defaultTemplates :: FS
  globMeta :: "FS \<Rightarrow> string \<Rightarrow> error + string list"
  parseFiles :: "(string \<times> string) list \<Rightarrow> error + 't"
  execute :: "'t \<Rightarrow> string \<Rightarrow> File \<Rightarrow> string \<times> error option"

definition hasMeta :: "string \<Rightarrow> bool" where
  "hasMeta p = (\<exists>c \<in> set p. c \<in> set (''*?['' @ [CHR 0x5C]))"

definition Glob :: "'t Env \<Rightarrow> FS \<Rightarrow> string \<Rightarrow> error + string list" where
  "Glob env fsys pattern =
     (if hasMeta pattern then globMeta env fsys pattern
      else if fsys pattern = None then Inr [] else Inr [pattern])"

definition readFileFS :: "FS \<Rightarrow> string \<Rightarrow> string \<times> string" where
  "readFileFS fsys file = (file, case fsys file of None \<Rightarrow> [] | Some b \<Rightarrow> b)"

definition ParseFS :: "'t Env \<Rightarrow> FS \<Rightarrow> string \<Rightarrow> error + 't" where
  "ParseFS env fsys pattern =
     (case Glob env fsys pattern of
        Inl err \<Rightarrow> Inl err
      | Inr list \<Rightarrow>
          if list = [] then Inl (NoFilesError pattern)
          else parseFiles env (map (readFileFS fsys) list))"

definition getTemplateFS :: "'t Env \<Rightarrow> GenOpts \<Rightarrow> error + FS" where
  "getTemplateFS env opts =
     (if TemplateDir opts = [] then Sub (defaultTemplates env) ''templates''
      else let tFS = DirFS (osFiles env) (TemplateDir opts)
           in Sub tFS (TemplateDir opts))"

definition renderTemplate :: "'t Env \<Rightarrow> GenOpts \<Rightarrow> File \<Rightarrow> string \<times> error option" where
  "renderTemplate env opts file =
     (case getTemplateFS env opts of
        Inl err \<Rightarrow> ([], Some err)
      | Inr tFS \<Rightarrow>
          (case ParseFS env tFS (Format opts @ ''.tpl'') of
             Inl err \<Rightarrow> ([], Some err)
           | Inr t \<Rightarrow> execute env t ''output'' file))"

text \<open>
  The plugin's state is the list of the files generated so far, each a name and a
  buffer. \<open>generateFile\<close> registers the new file first (\<open>gen.NewGeneratedFile\<close>), then
  renders into it, and wraps an error with the file's name.
\<close>

record GeneratedFile =
  gf_filename :: string
  gf_buf :: string

definition generateFile ::
  "'t Env \<Rightarrow> GenOpts \<Rightarrow> GeneratedFile list \<Rightarrow> File \<Rightarrow> GeneratedFile list \<times> error option"
where
  "generateFile env opts gen file =
     (let fname = GeneratedFilenamePrefix file @ ''.'' @ Format opts;
          (written, err) = renderTemplate env opts file;
          gen' = gen @ [\<lparr>gf_filename = fname, gf_buf = written\<rparr>]
      in case err of
           Some e \<Rightarrow> (gen', Some (WrapError fname e))
         | None \<Rightarrow> (gen', None))"

text \<open>The loop of \<open>main\<close> over \<open>gen.Files\<close>.\<close>

fun run ::
  "'t Env \<Rightarrow> GenOpts \<Rightarrow> GeneratedFile list \<Rightarrow> File list \<Rightarrow> GeneratedFile list \<times> error option"
where
  "run env opts gen [] = (gen, None)"
| "run env opts gen (f # fs) =
     (if \<not> Generate f then run env opts gen fs
      else case generateFile env opts gen f of
             (gen', Some err) \<Rightarrow> (gen', Some err)
           | (gen', None) \<Rightarrow> run env opts gen' fs)"

text \<open>
  \<open>renderFails env opts file e\<close>: rendering \<open>file\<close> fails with \<open>e\<close>, which is the
  error of the template resolution, of the parse, or of the execution. \<open>outputName\<close>
  is the name of the generated file, and \<open>generated\<close> the entry that \<open>generateFile\<close>
  adds to the plugin for a file.
\<close>

definition renderFails :: "'t Env \<Rightarrow> GenOpts \<Rightarrow> File \<Rightarrow> error \<Rightarrow> bool" where
  "renderFails env opts file e =
     (case getTemplateFS env opts of
        Inl err \<Rightarrow> e = err
      | Inr tFS \<Rightarrow>
          (case ParseFS env tFS (Format opts @ ''.tpl'') of
             Inl err \<Rightarrow> e = err
           | Inr t \<Rightarrow> snd (execute env t ''output'' file) = Some e))"

definition outputName :: "GenOpts \<Rightarrow> File \<Rightarrow> string" where
  "outputName opts file = GeneratedFilenamePrefix file @ ''.'' @ Format opts"

definition generated :: "'t Env \<Rightarrow> GenOpts \<Rightarrow> File \<Rightarrow> GeneratedFile" where
  "generated env opts file =
     \<lparr>gf_filename = outputName opts file, gf_buf = fst (renderTemplate env opts file)\<rparr>"

section \<open>The filters as the specification words them\<close>

text \<open>
  The definitions of this section are not taken from main.go: they say in direct terms
  what the specification says of each filter, to be compared with the filters above.

  \<open>safeChar\<close> is the character class \<open>[A-Za-z0-9_-]\<close>. \<open>runes s\<close> are the characters
  of \<open>s\<close>, each with the bytes of its encoding; a byte that starts no valid encoding
  is a character of its own. \<open>anchor_spec\<close>: replace every \<open>/\<close> with \<open>_\<close>, then
  replace every character outside the class with \<open>-\<close>.
\<close>

definition safeChar :: "char \<Rightarrow> bool" where
  "safeChar c =
     (let b = (of_char c :: nat)
      in (of_char CHR ''a'' \<le> b \<and> b \<le> of_char CHR ''z'')
       \<or> (of_char CHR ''A'' \<le> b \<and> b \<le> of_char CHR ''Z'')
       \<or> (of_char CHR ''0'' \<le> b \<and> b \<le> of_char CHR ''9'')
       \<or> c = CHR ''_'' \<or> c = CHR ''-'')"

function runes :: "string \<Rightarrow> string list" where
  "runes s = (if s = [] then [] else take (runeWidth s) s # runes (drop (runeWidth s) s))"
  by pat_completeness auto
termination
  by (relation "measure length") (auto simp: runeWidth_pos)

declare runes.simps [simp del]

definition anchorRune :: "string \<Rightarrow> string" where
  "anchorRune r = (case r of [c] \<Rightarrow> if safeChar c then [c] else ''-'' | _ \<Rightarrow> ''-'')"

definition anchor_spec :: "string \<Rightarrow> string" where
  "anchor_spec s =
     concat (map anchorRune (runes (map (\<lambda>c. if c = CHR ''/'' then CHR ''_'' else c) s)))"

text \<open>
  \<open>isBreak\<close> are the line-break characters and \<open>isSpace\<close> the whitespace characters.
  \<open>paraSplit\<close> splits at every line break followed by any run of whitespace, and
  \<open>p_spec\<close> and \<open>para_spec\<close> wrap each segment and join the results with no
  separator. \<open>prepend c segs\<close> puts \<open>c\<close> in front of the first segment.
\<close>

definition isBreak :: "char \<Rightarrow> bool" where
  "isBreak c = (c = LF \<or> c = CR)"

definition isSpace :: "char \<Rightarrow> bool" where
  "isSpace c = (c = TAB \<or> c = LF \<or> c = FF \<or> c = CR \<or> c = SP)"

definition prepend :: "char \<Rightarrow> string list \<Rightarrow> string list" where
  "prepend c segs = (case segs of [] \<Rightarrow> [[c]] | p # ps \<Rightarrow> (c # p) # ps)"

function paraSplit :: "string \<Rightarrow> string list" where
  "paraSplit [] = [[]]"
| "paraSplit (c # cs) =
     (if isBreak c then [] # paraSplit (dropWhile isSpace cs)
      else prepend c (paraSplit cs))"
  by pat_completeness auto
termination
  by (relation "measure length") (auto simp: length_dropWhile_le less_Suc_eq_le)

definition p_spec :: "string \<Rightarrow> string" where
  "p_spec s = concat (map (\<lambda>seg. ''<p>'' @ seg @ ''</p>'') (paraSplit s))"

definition para_spec :: "string \<Rightarrow> string" where
  "para_spec s = concat (map (\<lambda>seg. ''<para>'' @ seg @ ''</para>'') (paraSplit s))"

text \<open>
  \<open>normalizeCRLF\<close> replaces \<open>\r\n\<close> with \<open>\n\<close> from left to right. \<open>runSplit\<close> splits at
  the runs of two or more line-break characters, \<open>collapseSpaces\<close> makes one space of
  every run of spaces, and \<open>nobr_spec\<close> puts the steps together: in each paragraph
  every remaining line break becomes a space and the runs of spaces collapse, and the
  paragraphs are joined with a blank line.
\<close>

fun normalizeCRLF :: "string \<Rightarrow> string" where
  "normalizeCRLF (c # d # cs) =
     (if c = CR \<and> d = LF then LF # normalizeCRLF cs else c # normalizeCRLF (d # cs))"
| "normalizeCRLF cs = cs"

function runSplit :: "string \<Rightarrow> string list" where
  "runSplit [] = [[]]"
| "runSplit (c # cs) =
     (if isBreak c \<and> cs \<noteq> [] \<and> isBreak (hd cs) then [] # runSplit (dropWhile isBreak cs)
      else prepend c (runSplit cs))"
  by pat_completeness auto
termination
  by (relation "measure length") (auto simp: length_dropWhile_le less_Suc_eq_le)

function collapseSpaces :: "string \<Rightarrow> string" where
  "collapseSpaces [] = []"
| "collapseSpaces (c # cs) =
     (if c = SP then SP # collapseSpaces (dropWhile (\<lambda>x. x = SP) cs)
      else c # collapseSpaces cs)"
  by pat_completeness auto
termination
  by (relation "measure length") (auto simp: length_dropWhile_le less_Suc_eq_le)

definition nobr_spec :: "string \<Rightarrow> string" where
  "nobr_spec s =
     Join (map (\<lambda>p. collapseSpaces (map (\<lambda>c. if isBreak c then SP else c) p))
               (runSplit (normalizeCRLF s)))
          [LF, LF]"

section \<open>Example inputs\<close>

text \<open>
  A file \<open>example\<close> with a message \<open>User\<close>, its field \<open>id\<close>, a message \<open>Address\<close>
  nested in \<open>User\<close>, and a field of \<open>User\<close> whose type is \<open>Address\<close>.
\<close>

definition file_desc :: descriptor where
  "file_desc = Descriptor ''example'' ''example'' None"

definition User_desc :: descriptor where
  "User_desc = Descriptor ''User'' ''example.User'' (Some file_desc)"

definition id_desc :: descriptor where
  "id_desc = Descriptor ''id'' ''example.User.id'' (Some User_desc)"

definition Address_desc :: descriptor where
  "Address_desc = Descriptor ''Address'' ''example.User.Address'' (Some User_desc)"

definition address_field :: Field where
  "address_field =
     \<lparr>Field_Desc = Descriptor ''address'' ''example.User.address'' (Some User_desc),
      Field_Kind = MessageKind,
      Field_Message = Some \<lparr>Message_Desc = Address_desc\<rparr>,
      Field_Enum = None\<rparr>"

text \<open>
  An environment with the embedded template \<open>templates/markdown.tpl\<close> whose execution
  fails on the file \<open>bad\<close>, and four input files, the second not to be generated.
\<close>

definition example_env :: "unit Env" where
  "example_env =
     \<lparr>osFiles = (\<lambda>name. None),
      defaultTemplates = (\<lambda>name. if name = ''templates/markdown.tpl'' then Some ''T'' else None),
      globMeta = (\<lambda>fsys pattern. Inr []),
      parseFiles = (\<lambda>files. Inr ()),
      execute = (\<lambda>t name file.
        if GeneratedFilenamePrefix file = ''bad'' then (''par'', Some (TemplateError ''boom''))
        else (''doc'', None))\<rparr>"

definition example_files :: "File list" where
  "example_files =
     [\<lparr>Generate = True, GeneratedFilenamePrefix = ''a'', GoImportPath = ''p''\<rparr>,
      \<lparr>Generate = False, GeneratedFilenamePrefix = ''dep'', GoImportPath = ''p''\<rparr>,
      \<lparr>Generate = True, GeneratedFilenamePrefix = ''bad'', GoImportPath = ''p''\<rparr>,
      \<lparr>Generate = True, GeneratedFilenamePrefix = ''c'', GoImportPath = ''p''\<rparr>]"


text \<open>
  An environment whose only file on disk is \<open>path\<close>, and the options
  \<open>format=markdown, templates=tpl\<close>.
\<close>

definition override_env :: "string \<Rightarrow> unit Env" where
  "override_env path =
     \<lparr>osFiles = (\<lambda>name. if name = path then Some ''T'' else None),
      defaultTemplates = (\<lambda>name. if name = ''templates/markdown.tpl'' then Some ''D'' else None),
      globMeta = (\<lambda>fsys pattern. Inr []),
      parseFiles = (\<lambda>files. Inr ()),
      execute = (\<lambda>t name file. (''doc'', None))\<rparr>"

definition override_opts :: GenOpts where
  "override_opts = \<lparr>Format = ''markdown'', TemplateDir = ''tpl''\<rparr>"

section \<open>Evaluation lemmas\<close>

lemma DecodeRune_ascii:
  "of_char c < (0x80::nat) \<Longrightarrow> DecodeRuneInString (c # cs) = (of_char c, 1)"
  by (simp add: DecodeRuneInString_def byte_at_def)

lemma runeWidth_ascii: "of_char c < (0x80::nat) \<Longrightarrow> runeWidth (c # cs) = 1"
  by (simp add: runeWidth_def DecodeRune_ascii)

lemma ValidString_ascii: "\<forall>c \<in> set s. of_char c < (0x80::nat) \<Longrightarrow> ValidString s"
proof (induction s)
  case Nil
  show ?case by (simp add: ValidString.simps)
next
  case (Cons c cs)
  then have c: "of_char c < (0x80::nat)" by simp
  have "DecodeRuneInString (c # cs) \<noteq> (RuneError, 1)"
    using c by (simp add: DecodeRune_ascii RuneError_def)
  then show ?case using Cons c by (simp add: runeWidth_ascii ValidString.simps[of "c # cs"])
qed

lemma ValidPath_templates: "ValidPath ''templates''"
  by (simp add: ValidPath_def ValidString_ascii validElems.simps)

lemma ValidPath_markdown_tpl: "ValidPath ''markdown.tpl''"
  by (simp add: ValidPath_def ValidString_ascii validElems.simps)

lemma ValidPath_tpl: "ValidPath ''tpl''"
  by (simp add: ValidPath_def ValidString_ascii validElems.simps)

lemma not_ValidPath_absolute: "\<not> ValidPath ''/srv/tpl''"
  by (simp add: ValidPath_def ValidString_ascii validElems.simps)

lemma not_hasMeta_markdown_tpl: "\<not> hasMeta ''markdown.tpl''"
  by (simp add: hasMeta_def)

section \<open>Properties of the regexp model\<close>

text \<open>
  \<open>nonEmpty re\<close> is a sufficient syntactic condition for \<open>re\<close> never to match the empty
  string. Every end of a match is a suffix of the input, and a match that is not empty
  consumes at least the first rune.
\<close>

fun nonEmpty :: "regex \<Rightarrow> bool" where
  "nonEmpty (Literal r) = True"
| "nonEmpty (CharClass neg rs) = True"
| "nonEmpty (Concat a b) = (nonEmpty a \<or> nonEmpty b)"
| "nonEmpty (Alternate a b) = (nonEmpty a \<and> nonEmpty b)"
| "nonEmpty (Star a) = False"
| "nonEmpty (Capture a) = nonEmpty a"

lemma ends_suffix: "t \<in> set (ends re s) \<Longrightarrow> suffix t s"
proof (induction re s arbitrary: t rule: ends.induct)
  case (1 r s)
  then show ?case by (auto simp: suffix_drop split: if_splits)
next
  case (2 neg rs s)
  then show ?case by (auto simp: suffix_drop split: if_splits)
next
  case (3 a b s)
  from "3.prems" obtain u where u: "u \<in> set (ends a s)" and t: "t \<in> set (ends b u)"
    by auto
  from "3.IH"(1)[OF u] "3.IH"(2)[OF u t] show ?case
    by (rule suffix_order.trans[rotated])
next
  case (4 a b s)
  then show ?case by auto
next
  case (5 a s)
  from "5.prems" consider "t = s"
    | u where "u \<in> set (ends a s)" "length u < length s" "t \<in> set (ends (Star a) u)"
    by (auto simp: ends.simps(5)[of a s] split: if_splits)
  then show ?case
  proof cases
    case 1
    then show ?thesis by simp
  next
    case 2
    from "5.IH"(1)[OF 2(1)] "5.IH"(2)[OF 2(1) 2(2) 2(3)] show ?thesis
      by (rule suffix_order.trans[rotated])
  qed
next
  case (6 a s)
  then show ?case by auto
qed

lemma ends_length_le: "t \<in> set (ends re s) \<Longrightarrow> length t \<le> length s"
  by (drule ends_suffix) (rule suffix_length_le)

lemma ends_progress:
  "t \<in> set (ends re s) \<Longrightarrow> t = s \<or> length t + runeWidth s \<le> length s"
proof (induction re s arbitrary: t rule: ends.induct)
  case (1 r s)
  then show ?case using runeWidth_le[of s] by (auto split: if_splits)
next
  case (2 neg rs s)
  then show ?case using runeWidth_le[of s] by (auto split: if_splits)
next
  case (3 a b s)
  from "3.prems" obtain u where u: "u \<in> set (ends a s)" and t: "t \<in> set (ends b u)"
    by auto
  from "3.IH"(1)[OF u] show ?case
  proof
    assume "u = s"
    with "3.IH"(2)[OF u t] show ?thesis by simp
  next
    assume "length u + runeWidth s \<le> length s"
    with ends_length_le[OF t] show ?thesis by simp
  qed
next
  case (4 a b s)
  then show ?case by auto
next
  case (5 a s)
  from "5.prems" consider "t = s"
    | u where "u \<in> set (ends a s)" "length u < length s" "t \<in> set (ends (Star a) u)"
    by (auto simp: ends.simps(5)[of a s] split: if_splits)
  then show ?case
  proof cases
    case 1
    then show ?thesis by simp
  next
    case 2
    from "5.IH"(1)[OF 2(1)] 2(2) have "length u + runeWidth s \<le> length s" by auto
    with ends_length_le[OF 2(3)] show ?thesis by simp
  qed
next
  case (6 a s)
  then show ?case by auto
qed

lemma ends_nonEmpty: "nonEmpty re \<Longrightarrow> t \<in> set (ends re s) \<Longrightarrow> length t < length s"
proof (induction re s arbitrary: t rule: ends.induct)
  case (1 r s)
  then show ?case using runeWidth_pos[of s] by (auto split: if_splits)
next
  case (2 neg rs s)
  then show ?case using runeWidth_pos[of s] by (auto split: if_splits)
next
  case (3 a b s)
  from "3.prems" obtain u where u: "u \<in> set (ends a s)" and t: "t \<in> set (ends b u)"
    by auto
  from "3.prems"(1) have "nonEmpty a \<or> nonEmpty b" by simp
  then show ?case
  proof
    assume "nonEmpty a"
    from "3.IH"(1)[OF this u] ends_length_le[OF t] show ?thesis by simp
  next
    assume "nonEmpty b"
    from "3.IH"(2)[OF u this t] ends_length_le[OF u] show ?thesis by simp
  qed
next
  case (4 a b s)
  then show ?case by auto
next
  case (5 a s)
  then show ?case by simp
next
  case (6 a s)
  then show ?case by auto
qed

lemma search_bounds: "search re s = Some (k, n) \<Longrightarrow> k + n \<le> length s"
proof (induction re s arbitrary: k n rule: search.induct)
  case (1 re s)
  show ?case
  proof (cases "ends re s")
    case (Cons t ts)
    with "1.prems" show ?thesis by (auto simp: search.simps[of re s])
  next
    case Nil
    with "1.prems" have ne: "s \<noteq> []" by (auto simp: search.simps[of re s] split: if_splits)
    from Nil ne "1.prems" obtain k' where
      s': "search re (drop (runeWidth s) s) = Some (k', n)" and k: "k = runeWidth s + k'"
      by (auto simp: search.simps[of re s])
    from "1.IH"[OF Nil ne s'] k runeWidth_le[of s] show ?thesis by simp
  qed
qed

lemma search_nonEmpty: "nonEmpty re \<Longrightarrow> search re s = Some (k, n) \<Longrightarrow> 0 < n"
proof (induction re s arbitrary: k n rule: search.induct)
  case (1 re s)
  show ?case
  proof (cases "ends re s")
    case (Cons t ts)
    then have "t \<in> set (ends re s)" by simp
    from ends_nonEmpty[OF "1.prems"(1) this] Cons "1.prems"(2) show ?thesis
      by (auto simp: search.simps[of re s])
  next
    case Nil
    with "1.prems" have ne: "s \<noteq> []" by (auto simp: search.simps[of re s] split: if_splits)
    from Nil ne "1.prems" obtain k' where
      s': "search re (drop (runeWidth s) s) = Some (k', n)"
      by (auto simp: search.simps[of re s])
    from "1.IH"[OF Nil ne "1.prems"(1) s'] show ?thesis .
  qed
qed

lemma search_progress: "search re s = Some (k, n) \<Longrightarrow> 0 < n \<Longrightarrow> runeWidth s \<le> k + n"
proof (cases "ends re s")
  case (Cons t ts)
  assume a: "search re s = Some (k, n)" "0 < n"
  from Cons have t: "t \<in> set (ends re s)" by simp
  from a Cons have "k = 0" "n = length s - length t"
    by (simp_all add: search.simps[of re s])
  with ends_progress[OF t] a(2) show ?thesis by auto
next
  case Nil
  assume a: "search re s = Some (k, n)" "0 < n"
  with Nil show ?thesis by (auto simp: search.simps[of re s] split: if_splits)
qed

text \<open>
  For a pattern that never matches the empty string, \<open>Split\<close> returns the pieces
  between the successive leftmost matches (\<open>splitS\<close>) and \<open>ReplaceAllString\<close>
  replaces each of them (\<open>replS\<close>): the special cases of Go's loops for empty
  matches are not reached.
\<close>

function splitS :: "regex \<Rightarrow> string \<Rightarrow> string list" where
  "splitS re s =
     (case search re s of
        None \<Rightarrow> [s]
      | Some (k, n) \<Rightarrow> if n = 0 then [s] else take k s # splitS re (drop (k + n) s))"
  by pat_completeness auto
termination
  by (relation "measure (\<lambda>(re, s). length s)") (auto dest: search_bounds)

declare splitS.simps [simp del]

function replS :: "regex \<Rightarrow> string \<Rightarrow> string \<Rightarrow> string" where
  "replS re s repl =
     (case search re s of
        None \<Rightarrow> s
      | Some (k, n) \<Rightarrow>
          if n = 0 then s else take k s @ repl @ replS re (drop (k + n) s) repl)"
  by pat_completeness auto
termination
  by (relation "measure (\<lambda>(re, s, repl). length s)") (auto dest: search_bounds)

declare replS.simps [simp del]

lemma splitLoop_allMatches:
  "nonEmpty re \<Longrightarrow> pos \<le> length s \<Longrightarrow> e < length s \<Longrightarrow>
   splitLoop s (allMatches re s pos prev) pos e strs = strs @ splitS re (drop pos s)"
proof (induction "length s - pos" arbitrary: pos e strs prev rule: less_induct)
  case less
  show ?case
  proof (cases "search re (drop pos s)")
    case None
    then have "allMatches re s pos prev = []"
      using less.prems by (simp add: allMatches.simps[of re s pos] doExecute_def)
    with None less.prems show ?thesis
      by (simp add: splitS.simps[of re "drop pos s"])
  next
    case (Some kn)
    obtain k n where kn: "kn = (k, n)" by (cases kn)
    from Some kn have sr: "search re (drop pos s) = Some (k, n)" by simp
    from search_nonEmpty[OF less.prems(1) sr] have n: "0 < n" .
    from search_bounds[OF sr] less.prems have b: "pos + k + n \<le> length s" by simp
    have am: "allMatches re s pos prev =
        (pos + k, pos + k + n) # allMatches re s (pos + k + n) (int (pos + k + n))"
      using sr n less.prems by (simp add: allMatches.simps[of re s pos] doExecute_def)
    have "splitLoop s (allMatches re s (pos + k + n) (int (pos + k + n))) (pos + k + n) (pos + k)
            (strs @ [take k (drop pos s)])
          = (strs @ [take k (drop pos s)]) @ splitS re (drop (pos + k + n) s)"
      using n b by (intro less.hyps less.prems(1)) auto
    then show ?thesis
      using n by (simp add: am splitS.simps[of re "drop pos s"] sr add.commute add.left_commute)
  qed
qed

lemma search_Nil_nonEmpty: "nonEmpty re \<Longrightarrow> search re [] = None"
  using search_nonEmpty[of re "[]"] search_bounds[of re "[]"]
  by (cases "search re []") auto

lemma Split_splitS: "nonEmpty re \<Longrightarrow> Split re s = splitS re s"
proof (cases "s = []")
  case True
  assume "nonEmpty re"
  with True show ?thesis
    by (simp add: Split_def splitS.simps[of re "[]"] search_Nil_nonEmpty)
next
  case False
  assume "nonEmpty re"
  from splitLoop_allMatches[OF this, of 0 s 0 "- 1" "[]"] False show ?thesis
    by (simp add: Split_def)
qed

lemma replaceAll_replS:
  "nonEmpty re \<Longrightarrow> p \<le> length src \<Longrightarrow>
   replaceAll re src repl p p buf = buf @ replS re (drop p src) repl"
proof (induction "length src - p" arbitrary: p buf rule: less_induct)
  case less
  show ?case
  proof (cases "search re (drop p src)")
    case None
    with less.prems show ?thesis
      by (simp add: replaceAll.simps[of re src repl p p] doExecute_def
          replS.simps[of re "drop p src"])
  next
    case (Some kn)
    obtain k n where kn: "kn = (k, n)" by (cases kn)
    from Some kn have sr: "search re (drop p src) = Some (k, n)" by simp
    from search_nonEmpty[OF less.prems(1) sr] have n: "0 < n" .
    from search_bounds[OF sr] less.prems have b: "p + k + n \<le> length src" by simp
    from search_progress[OF sr n] have w: "runeWidth (drop p src) \<le> k + n" .
    have step: "replaceAll re src repl p p buf =
        replaceAll re src repl (p + k + n) (p + k + n) (buf @ take k (drop p src) @ repl)"
      using sr n w less.prems
      by (simp add: replaceAll.simps[of re src repl p p] doExecute_def Let_def)
    have "replaceAll re src repl (p + k + n) (p + k + n) (buf @ take k (drop p src) @ repl)
          = (buf @ take k (drop p src) @ repl) @ replS re (drop (p + k + n) src) repl"
      using n b by (intro less.hyps less.prems(1)) auto
    then show ?thesis
      using n by (simp add: step replS.simps[of re "drop p src"] sr add.commute add.left_commute)
  qed
qed

lemma ReplaceAllString_replS: "nonEmpty re \<Longrightarrow> ReplaceAllString re s repl = replS re s repl"
  using replaceAll_replS[of re 0 s repl "[]"] by (simp add: ReplaceAllString_def)

section \<open>The descriptor helpers\<close>

text \<open>
  C6. \<open>longName\<close> returns the parent's name, a dot and the node's name exactly when
  the node has a grandparent, and the node's name otherwise.
\<close>

theorem longName_grandparent:
  "(grandparent d \<noteq> None \<longrightarrow> (\<exists>p. Parent d = Some p \<and> longName d = Name p @ ''.'' @ Name d))
   \<and> (grandparent d = None \<longrightarrow> longName d = Name d)
   \<and> (\<forall>p. Parent d = Some p \<longrightarrow>
          (longName d = Name p @ ''.'' @ Name d) = (grandparent d \<noteq> None))"
  by (auto simp: longName_def grandparent_def split: option.splits)

text \<open>
  The field \<open>id\<close> of the message \<open>User\<close> in a file has the long name \<open>User.id\<close>, and
  the top-level message \<open>User\<close> the long name \<open>User\<close>.
\<close>

theorem longName_grandparent_witness:
  "grandparent id_desc \<noteq> None \<and> longName id_desc = ''User.id''
   \<and> grandparent User_desc = None \<and> longName User_desc = ''User''"
  using longName_grandparent [of id_desc] longName_grandparent [of User_desc]
  by (simp add: grandparent_def id_desc_def User_desc_def file_desc_def)

text \<open>
  C2, as stated, fails: for a field whose type is a nested message, \<open>field_type\<close> is
  not the short name of the type (\<open>Address\<close>) but its long name (\<open>User.Address\<close>).
\<close>

theorem field_type_nested_counterexample:
  "field_type (Some address_field) = Inr ''User.Address''
   \<and> Name (Message_Desc (the (Field_Message address_field))) = ''Address''
   \<and> field_type (Some address_field)
       \<noteq> Inr (Name (Message_Desc (the (Field_Message address_field))))"
  by (simp add: address_field_def Address_desc_def User_desc_def file_desc_def longName_def)

text \<open>
  C2, amended. \<open>field_type\<close> returns the \<open>longName\<close> of the referenced message or
  enum (the message first), which is its short name when the type has no grandparent,
  and otherwise the label of the field's kind; \<open>full_field_type\<close> returns the full
  name of the referenced type, and otherwise the same label.
\<close>

theorem field_type_longName:
  "(Field_Message f = Some m \<longrightarrow>
      field_type (Some f) = Inr (longName (Message_Desc m))
      \<and> full_field_type (Some f) = Inr (FullName (Message_Desc m)))
   \<and> (Field_Message f = None \<and> Field_Enum f = Some e \<longrightarrow>
      field_type (Some f) = Inr (longName (Enum_Desc e))
      \<and> full_field_type (Some f) = Inr (FullName (Enum_Desc e)))
   \<and> (Field_Message f = None \<and> Field_Enum f = None \<longrightarrow>
      field_type (Some f) = Inr (Kind_String (Field_Kind f))
      \<and> full_field_type (Some f) = Inr (Kind_String (Field_Kind f)))
   \<and> (Field_Message f = Some m \<and> grandparent (Message_Desc m) = None \<longrightarrow>
      field_type (Some f) = Inr (Name (Message_Desc m)))
   \<and> (Field_Message f = None \<and> Field_Enum f = Some e \<and> grandparent (Enum_Desc e) = None \<longrightarrow>
      field_type (Some f) = Inr (Name (Enum_Desc e)))"
  by (auto simp: longName_def grandparent_def split: option.splits)

theorem field_type_longName_witness:
  "Field_Message address_field = Some \<lparr>Message_Desc = Address_desc\<rparr>
   \<and> field_type (Some address_field) = Inr (longName Address_desc)
   \<and> full_field_type (Some address_field) = Inr ''example.User.Address''"
  using field_type_longName [of address_field "\<lparr>Message_Desc = Address_desc\<rparr>"]
  by (simp add: address_field_def Address_desc_def)

text \<open>
  C10. \<open>message_type\<close> answers the nil message with the label \<open>(none)\<close> and never
  fails; \<open>full_message_type\<close> has no such guard: on the nil message it reads
  \<open>f.Desc\<close> through the nil pointer and fails, and it returns a name exactly on the
  other messages.
\<close>

theorem message_type_guards_nil:
  "message_type None = Inr ''(none)''
   \<and> full_message_type None = Inl NilPointerDereference
   \<and> (\<forall>m. \<exists>s. message_type m = Inr s)
   \<and> (\<forall>m. (\<exists>s. full_message_type m = Inr s) = (m \<noteq> None))"
proof -
  have a: "\<exists>s. message_type m = Inr s" for m by (cases m) simp_all
  have b: "(\<exists>s. full_message_type m = Inr s) = (m \<noteq> None)" for m by (cases m) simp_all
  show ?thesis using a b by simp
qed

section \<open>The comment filter\<close>

text \<open>
  C5, as stated, fails: on a comment of two spaces \<open>description\<close> returns the empty
  string although the text left after trimming does not begin with \<open>@exclude\<close>.
\<close>

theorem description_empty_counterexample:
  "description (\<lambda>s. s) ''  '' = []
   \<and> \<not> prefix ''@exclude'' (TrimLeft ''  '' (''*/'' @ [LF] @ '' ''))"
  by (simp add: description_def TrimLeft_def HasPrefix_def)

text \<open>
  C5, amended. \<open>description\<close> removes the leading run of \<open>*\<close>, \<open>/\<close>, newline and
  space from the printed input; it returns the empty string when the rest begins with
  \<open>@exclude\<close> and the rest unchanged otherwise; so the result is empty exactly when
  the rest begins with \<open>@exclude\<close> or the input has no other character than those
  four. Trailing whitespace stays.
\<close>

theorem description_trims_left:
  "description sprint x =
     (if prefix ''@exclude'' (dropWhile (\<lambda>c. c \<in> {CHR ''*'', CHR ''/'', LF, SP}) (sprint x))
      then [] else dropWhile (\<lambda>c. c \<in> {CHR ''*'', CHR ''/'', LF, SP}) (sprint x))
   \<and> ((description sprint x = []) =
        (prefix ''@exclude'' (dropWhile (\<lambda>c. c \<in> {CHR ''*'', CHR ''/'', LF, SP}) (sprint x))
         \<or> set (sprint x) \<subseteq> {CHR ''*'', CHR ''/'', LF, SP}))
   \<and> description (\<lambda>s. s) (''  hello world  '' @ [LF]) = ''hello world  '' @ [LF]
   \<and> description (\<lambda>s. s) ''/** @exclude internal note */'' = []"
  apply (simp add: description_def TrimLeft_def HasPrefix_def Let_def)
  apply (auto simp: dropWhile_eq_Nil_conv)
  done

section \<open>The anchor filter\<close>

text \<open>A rune decoded from a byte outside ASCII is outside ASCII.\<close>

lemma mod_range: "q * d \<le> b \<Longrightarrow> b < q * d + d \<Longrightarrow> (b::nat) mod d = b - q * d"
proof -
  assume a: "q * d \<le> b" "b < q * d + d"
  then obtain r where r: "b = q * d + r" "r < d"
    by (metis add_diff_cancel_left' le_Suc_ex nat_add_left_cancel_less)
  then show ?thesis by simp
qed

lemma rune2: "0xC2 \<le> b \<Longrightarrow> b \<le> 0xDF \<Longrightarrow> (128::nat) \<le> (b mod 32) * 64 + x"
  using mod_range[of 6 32 b] by simp

lemma rune3a: "0xA0 \<le> s1 \<Longrightarrow> s1 \<le> 0xBF \<Longrightarrow> (128::nat) \<le> y + (s1 mod 64) * 64 + x"
  using mod_range[of 2 64 s1] by simp

lemma rune3b: "0xE1 \<le> b \<Longrightarrow> b \<le> 0xEF \<Longrightarrow> (128::nat) \<le> (b mod 16) * 4096 + y + x"
  using mod_range[of 14 16 b] by simp

lemma rune4a: "0x90 \<le> s1 \<Longrightarrow> s1 \<le> 0xBF \<Longrightarrow> (128::nat) \<le> z + (s1 mod 64) * 4096 + y + x"
  using mod_range[of 2 64 s1] by simp

lemma rune4b: "0xF1 \<le> b \<Longrightarrow> b \<le> 0xF4 \<Longrightarrow> (128::nat) \<le> (b mod 8) * 262144 + z + y + x"
  using mod_range[of 30 8 b] by simp

lemma first_cases:
  "first b = Some (sz, lo, hi) \<Longrightarrow>
     (sz = 2 \<and> 0xC2 \<le> b \<and> b \<le> 0xDF \<and> lo = 0x80 \<and> hi = 0xBF)
   \<or> (sz = 3 \<and> b = 0xE0 \<and> lo = 0xA0 \<and> hi = 0xBF)
   \<or> (sz = 3 \<and> 0xE1 \<le> b \<and> b \<le> 0xEF \<and> 0x80 \<le> lo \<and> hi \<le> 0xBF)
   \<or> (sz = 4 \<and> b = 0xF0 \<and> lo = 0x90 \<and> hi = 0xBF)
   \<or> (sz = 4 \<and> 0xF1 \<le> b \<and> b \<le> 0xF4 \<and> 0x80 \<le> lo \<and> hi \<le> 0xBF)"
  by (auto simp: first_def split: if_splits)

lemma DecodeRune_high:
  assumes "128 \<le> (of_char c :: nat)"
  shows "128 \<le> fst (DecodeRuneInString (c # cs))"
proof (cases "first (of_char c)")
  case None
  with assms show ?thesis
    by (simp add: DecodeRuneInString_def byte_at_def RuneError_def)
next
  case (Some t)
  obtain sz lo hi where t: "t = (sz, lo, hi)" by (cases t)
  define b where "b = (of_char c :: nat)"
  define s1 where "s1 = byte_at (c # cs) 1"
  define s2 where "s2 = byte_at (c # cs) 2"
  define s3 where "s3 = byte_at (c # cs) 3"
  have f: "first b = Some (sz, lo, hi)" using Some t by (simp add: b_def)
  have d: "DecodeRuneInString (c # cs) =
      (if length (c # cs) < sz then (RuneError, 1)
       else if s1 < lo \<or> hi < s1 then (RuneError, 1)
       else if sz \<le> 2 then ((b mod 32) * 64 + s1 mod 64, 2)
       else if s2 < 0x80 \<or> 0xBF < s2 then (RuneError, 1)
       else if sz \<le> 3 then ((b mod 16) * 4096 + (s1 mod 64) * 64 + s2 mod 64, 3)
       else if s3 < 0x80 \<or> 0xBF < s3 then (RuneError, 1)
       else ((b mod 8) * 262144 + (s1 mod 64) * 4096 + (s2 mod 64) * 64 + s3 mod 64, 4))"
    using assms f
    by (simp add: DecodeRuneInString_def Let_def b_def s1_def s2_def s3_def byte_at_def)
  from first_cases[OF f] consider
      "sz = 2" "0xC2 \<le> b" "b \<le> 0xDF"
    | "sz = 3" "b = 0xE0" "lo = 0xA0" "hi = 0xBF"
    | "sz = 3" "0xE1 \<le> b" "b \<le> 0xEF"
    | "sz = 4" "b = 0xF0" "lo = 0x90" "hi = 0xBF"
    | "sz = 4" "0xF1 \<le> b" "b \<le> 0xF4"
    by auto
  then show ?thesis
  proof cases
    case 1
    then show ?thesis using rune2[of b "s1 mod 64"] by (simp add: d RuneError_def)
  next
    case 2
    then show ?thesis
      using rune3a[of s1 "(b mod 16) * 4096" "s2 mod 64"] by (simp add: d RuneError_def)
  next
    case 3
    then show ?thesis
      using rune3b[of b "(s1 mod 64) * 64" "s2 mod 64"] by (simp add: d RuneError_def)
  next
    case 4
    then show ?thesis
      using rune4a[of s1 "(b mod 8) * 262144" "(s2 mod 64) * 64" "s3 mod 64"]
      by (simp add: d RuneError_def)
  next
    case 5
    then show ?thesis
      using rune4b[of b "(s1 mod 64) * 4096" "(s2 mod 64) * 64" "s3 mod 64"]
      by (simp add: d RuneError_def)
  qed
qed


lemma Replace_char: "Replace s [a] [b] = map (\<lambda>c. if c = a then b else c) s"
proof (induction s)
  case Nil
  show ?case by (simp add: Replace.simps[of "[]"])
next
  case (Cons c cs)
  then show ?case by (auto simp: Replace.simps[of "c # cs"])
qed

abbreviation safeRanges :: "(nat \<times> nat) list" where
  "safeRanges \<equiv> [(0x61, 0x7A), (0x41, 0x5A), (0x30, 0x39), (0x5F, 0x5F), (0x2D, 0x2D)]"

lemma safeChar_ranges: "safeChar c = inRanges safeRanges (of_char c)"
proof -
  have a: "(c = CHR ''_'') = ((of_char c :: nat) = 0x5F)"
    using of_char_eq_iff[of c "CHR ''_''", where ?'a = nat] by simp
  have b: "(c = CHR ''-'') = ((of_char c :: nat) = 0x2D)"
    using of_char_eq_iff[of c "CHR ''-''", where ?'a = nat] by simp
  show ?thesis
    by (auto simp: safeChar_def inRanges_def a b Let_def)
qed

lemma inRanges_safe_ascii: "inRanges safeRanges r \<Longrightarrow> r < 128"
  by (auto simp: inRanges_def)

lemma safeChar_ascii: "safeChar c \<Longrightarrow> (of_char c :: nat) < 128"
  by (simp add: safeChar_ranges inRanges_safe_ascii)

lemma nonEmpty_specialCharsPattern: "nonEmpty specialCharsPattern"
  by (simp add: specialCharsPattern_def)

lemma ends_specialCharsPattern:
  "ends specialCharsPattern s =
     (if s \<noteq> [] \<and> \<not> inRanges safeRanges (fst (DecodeRuneInString s))
      then [drop (runeWidth s) s] else [])"
  by (simp add: specialCharsPattern_def)

lemma replS_step_skip:
  assumes "nonEmpty re" and "search re (c # cs) = map_option (\<lambda>(k, n). (Suc k, n)) (search re cs)"
  shows "replS re (c # cs) repl = c # replS re cs repl"
proof (cases "search re cs")
  case None
  with assms show ?thesis
    by (simp add: replS.simps[of re "c # cs"] replS.simps[of re cs])
next
  case (Some kn)
  obtain k n where kn: "kn = (k, n)" by (cases kn)
  from search_nonEmpty[OF assms(1)] Some kn have "0 < n" by simp
  with assms Some kn show ?thesis
    by (simp add: replS.simps[of re "c # cs"] replS.simps[of re cs])
qed

lemma replS_specialCharsPattern:
  "replS specialCharsPattern s ''-'' = concat (map anchorRune (runes s))"
proof (induction s rule: runes.induct)
  case (1 s)
  show ?case
  proof (cases s)
    case Nil
    then show ?thesis
      by (simp add: replS.simps[of _ "[]"] search.simps[of _ "[]"] ends_specialCharsPattern
          runes.simps[of "[]"])
  next
    case (Cons c cs)
    show ?thesis
    proof (cases "inRanges safeRanges (fst (DecodeRuneInString s))")
      case True
      have asc: "(of_char c :: nat) < 128"
      proof (rule ccontr)
        assume "\<not> (of_char c :: nat) < 128"
        then have "128 \<le> fst (DecodeRuneInString (c # cs))"
          by (intro DecodeRune_high) simp
        with inRanges_safe_ascii[OF True] Cons show False by simp
      qed
      then have dec: "DecodeRuneInString s = (of_char c, 1)" and w: "runeWidth s = 1"
        using Cons by (simp_all add: DecodeRune_ascii runeWidth_ascii)
      from True dec have safe: "safeChar c" by (simp add: safeChar_ranges)
      have "search specialCharsPattern (c # cs) =
          map_option (\<lambda>(k, n). (Suc k, n)) (search specialCharsPattern cs)"
        using True Cons w
        by (simp add: search.simps[of _ "c # cs"] ends_specialCharsPattern)
      from replS_step_skip[OF nonEmpty_specialCharsPattern this]
      have r: "replS specialCharsPattern s ''-'' = c # replS specialCharsPattern cs ''-''"
        using Cons by simp
      from "1.IH" Cons w
      have "replS specialCharsPattern cs ''-'' = concat (map anchorRune (runes cs))" by simp
      moreover have "anchorRune [c] = [c]" using safe by (simp add: anchorRune_def)
      ultimately show ?thesis using r Cons w
        by (simp add: runes.simps[of "c # cs"])
    next
      case False
      define w where "w = runeWidth s"
      have wpos: "0 < w" and wle: "w \<le> length s"
        using Cons runeWidth_pos[of s] runeWidth_le[of s] by (simp_all add: w_def)
      have ne: "s \<noteq> []" using Cons by simp
      have sr: "search specialCharsPattern s = Some (0, w)"
        using False ne wle
        by (simp add: search.simps[of _ s] ends_specialCharsPattern w_def)
      have r: "replS specialCharsPattern s ''-'' =
          ''-'' @ replS specialCharsPattern (drop w s) ''-''"
        using wpos by (simp add: replS.simps[of _ s] sr)
      have a: "anchorRune (take w s) = ''-''"
      proof (cases "w = 1")
        case True
        then have t: "take w s = [c]" using Cons by simp
        have "\<not> safeChar c"
        proof
          assume sc: "safeChar c"
          from safeChar_ascii[OF this] have "DecodeRuneInString s = (of_char c, 1)"
            using Cons by (simp add: DecodeRune_ascii)
          with False sc show False by (simp add: safeChar_ranges)
        qed
        with t show ?thesis by (simp add: anchorRune_def)
      next
        case F: False
        with wpos wle have "2 \<le> length (take w s)" by simp
        then obtain x y zs where "take w s = x # y # zs"
          by (cases "take w s"; cases "tl (take w s)") auto
        then show ?thesis by (simp add: anchorRune_def)
      qed
      from "1.IH" ne
      have "replS specialCharsPattern (drop w s) ''-'' = concat (map anchorRune (runes (drop w s)))"
        by (simp add: w_def)
      with r a ne show ?thesis
        by (simp add: runes.simps[of s] w_def)
    qed
  qed
qed

lemma anchor_anchor_spec: "anchor sprint x = anchor_spec (sprint x)"
  by (simp add: anchor_def anchor_spec_def Replace_char
      ReplaceAllString_replS[OF nonEmpty_specialCharsPattern] replS_specialCharsPattern)

lemma runes_ascii:
  "\<forall>c \<in> set s. (of_char c :: nat) < 128 \<Longrightarrow> runes s = map (\<lambda>c. [c]) s"
proof (induction s)
  case Nil
  show ?case by (simp add: runes.simps[of "[]"])
next
  case (Cons c cs)
  then show ?case by (simp add: runes.simps[of "c # cs"] runeWidth_ascii)
qed

lemma anchorRune_safe: "list_all safeChar (anchorRune r)"
  by (auto simp: anchorRune_def safeChar_def split: list.splits)

lemma anchor_spec_safe: "list_all safeChar (anchor_spec s)"
  by (auto simp: anchor_spec_def list_all_iff dest: anchorRune_safe[unfolded list_all_iff, rule_format])

lemma anchor_spec_fixed: "list_all safeChar s \<Longrightarrow> anchor_spec s = s"
proof -
  assume a: "list_all safeChar s"
  then have asc: "\<forall>c \<in> set s. (of_char c :: nat) < 128"
    by (auto simp: list_all_iff dest: safeChar_ascii)
  have ns: "\<not> safeChar CHR ''/''" by (simp add: safeChar_def)
  with a have m: "map (\<lambda>c. if c = CHR ''/'' then CHR ''_'' else c) s = s"
    by (auto simp: list_all_iff intro!: map_idI)
  have "concat (map anchorRune (map (\<lambda>c. [c]) s)) = s"
    using a by (induction s) (simp_all add: anchorRune_def)
  then show ?thesis by (simp add: anchor_spec_def m runes_ascii[OF asc])
qed

lemma anchor_idempotent: "anchor (\<lambda>s. s) (anchor sprint x) = anchor sprint x"
proof -
  have "anchor_spec (anchor_spec (sprint x)) = anchor_spec (sprint x)"
    by (rule anchor_spec_fixed) (rule anchor_spec_safe)
  then show ?thesis by (simp add: anchor_anchor_spec)
qed

lemma anchor_example: "anchor (\<lambda>s. s) ''Foo/Bar Baz!'' = ''Foo_Bar-Baz-''"
  by (simp add: anchor_anchor_spec anchor_spec_def runes_ascii anchorRune_def safeChar_def)

text \<open>
  C8. \<open>anchor\<close> prints its argument, replaces every \<open>/\<close> with \<open>_\<close> and then every
  character outside \<open>[A-Za-z0-9_-]\<close> with \<open>-\<close>; it has no failing branch, and
  \<open>anchor("Foo/Bar Baz!")\<close> is \<open>Foo_Bar-Baz-\<close>.
\<close>

theorem anchor_replaces_unsafe_runes:
  "anchor sprint x = anchor_spec (sprint x)
   \<and> anchor (\<lambda>s. s) ''Foo/Bar Baz!'' = ''Foo_Bar-Baz-''"
  using anchor_anchor_spec anchor_example by simp

text \<open>
  C3, as stated, fails: there is no string on which applying \<open>anchor\<close> to its own
  output changes it.
\<close>

theorem anchor_not_fixed_point_counterexample:
  "\<not> (\<exists>s. anchor (\<lambda>s. s) (anchor (\<lambda>s. s) s) \<noteq> anchor (\<lambda>s. s) s)"
  by (simp add: anchor_idempotent)

text \<open>
  C3, amended. \<open>anchor\<close> applied to its own output returns it unchanged, and every
  character of the output of \<open>anchor\<close> is in the class \<open>[A-Za-z0-9_-]\<close>.
\<close>

theorem anchor_idempotent_and_safe:
  "anchor (\<lambda>s. s) (anchor sprint x) = anchor sprint x
   \<and> list_all safeChar (anchor sprint x)"
proof (rule conjI)
  show "anchor (\<lambda>s. s) (anchor sprint x) = anchor sprint x"
    by (rule anchor_idempotent)
  show "list_all safeChar (anchor sprint x)"
    by (simp add: anchor_anchor_spec anchor_spec_safe)
qed

section \<open>The paragraph filters\<close>

text \<open>
  A pattern that matches no rune outside ASCII at its start is searched byte by byte:
  the bytes of a rune outside ASCII are skipped one at a time with the same result.
\<close>

definition continuation :: "char \<Rightarrow> bool" where
  "continuation c = (0x80 \<le> (of_char c :: nat) \<and> (of_char c :: nat) \<le> 0xBF)"

lemma runeWidth_continuation: "continuation c \<Longrightarrow> runeWidth (c # cs) = 1"
  by (simp add: continuation_def runeWidth_def DecodeRuneInString_def byte_at_def first_def)

lemma DecodeRune_tail:
  assumes "128 \<le> (of_char c :: nat)"
  shows "runeWidth (c # cs) - 1 \<le> length cs
         \<and> list_all continuation (take (runeWidth (c # cs) - 1) cs)"
proof (cases "first (of_char c)")
  case None
  with assms show ?thesis
    by (simp add: runeWidth_def DecodeRuneInString_def byte_at_def)
next
  case (Some t)
  obtain sz lo hi where t: "t = (sz, lo, hi)" by (cases t)
  define b where "b = (of_char c :: nat)"
  define s1 where "s1 = byte_at (c # cs) 1"
  define s2 where "s2 = byte_at (c # cs) 2"
  define s3 where "s3 = byte_at (c # cs) 3"
  have f: "first b = Some (sz, lo, hi)" using Some t by (simp add: b_def)
  have d: "runeWidth (c # cs) =
      (if length (c # cs) < sz then 1
       else if s1 < lo \<or> hi < s1 then 1
       else if sz \<le> 2 then 2
       else if s2 < 0x80 \<or> 0xBF < s2 then 1
       else if sz \<le> 3 then 3
       else if s3 < 0x80 \<or> 0xBF < s3 then 1
       else 4)"
    using assms f
    by (simp add: runeWidth_def DecodeRuneInString_def Let_def b_def s1_def s2_def s3_def
        byte_at_def)
  from first_cases[OF f] have sz: "sz = 2 \<or> sz = 3 \<or> sz = 4"
    and lo: "0x80 \<le> lo" and hi: "hi \<le> 0xBF"
    by auto
  show ?thesis
  proof (cases "runeWidth (c # cs) = 1")
    case True
    then show ?thesis by simp
  next
    case False
    with d have len: "sz \<le> length (c # cs)" and c1: "lo \<le> s1" "s1 \<le> hi"
      by (auto split: if_splits)
    from sz len obtain x xs where cs: "cs = x # xs" by (cases cs) auto
    from c1 lo hi cs have x: "continuation x"
      by (simp add: continuation_def s1_def byte_at_def)
    show ?thesis
    proof (cases "runeWidth (c # cs) = 2")
      case True
      with cs x show ?thesis by simp
    next
      case w2: False
      with False d have sz3: "3 \<le> sz" and c2: "0x80 \<le> s2" "s2 \<le> 0xBF"
        by (auto split: if_splits)
      from sz3 len cs obtain y ys where xs: "xs = y # ys" by (cases xs) auto
      from c2 cs xs have y: "continuation y"
        by (simp add: continuation_def s2_def byte_at_def)
      show ?thesis
      proof (cases "runeWidth (c # cs) = 3")
        case True
        with cs xs x y show ?thesis by simp
      next
        case w3: False
        with False w2 d have w4: "runeWidth (c # cs) = 4"
          and sz4: "4 \<le> sz" and c3: "0x80 \<le> s3" "s3 \<le> 0xBF"
          by (auto split: if_splits)
        from sz4 len cs xs obtain z zs where ys: "ys = z # zs" by (cases ys) auto
        from c3 cs xs ys have z: "continuation z"
          by (simp add: continuation_def s3_def byte_at_def)
        from w4 cs xs ys x y z show ?thesis by simp
      qed
    qed
  qed
qed

lemma search_skip_continuation:
  assumes as: "\<And>c cs. 128 \<le> (of_char c :: nat) \<Longrightarrow> ends re (c # cs) = []"
  shows "list_all continuation pre \<Longrightarrow>
    search re (pre @ rest) = map_option (\<lambda>(k, n). (length pre + k, n)) (search re rest)"
proof (induction pre)
  case Nil
  show ?case by (simp add: option.map_ident case_prod_unfold)
next
  case (Cons d ds)
  then have d: "continuation d" and ds: "list_all continuation ds" by simp_all
  from d have "128 \<le> (of_char d :: nat)" by (simp add: continuation_def)
  from as[OF this] have e: "ends re (d # ds @ rest) = []" .
  have "search re (d # ds @ rest) = map_option (\<lambda>(k, n). (Suc k, n)) (search re (ds @ rest))"
    using e runeWidth_continuation[OF d]
    by (simp add: search.simps[of re "d # ds @ rest"])
  with Cons.IH[OF ds] show ?case
    by (simp add: option.map_comp comp_def case_prod_unfold)
qed

lemma search_skip_byte:
  assumes as: "\<And>c cs. 128 \<le> (of_char c :: nat) \<Longrightarrow> ends re (c # cs) = []"
    and e: "ends re (c # cs) = []"
  shows "search re (c # cs) = map_option (\<lambda>(k, n). (Suc k, n)) (search re cs)"
proof (cases "(of_char c :: nat) < 128")
  case True
  with e show ?thesis
    by (simp add: search.simps[of re "c # cs"] runeWidth_ascii)
next
  case False
  define w where "w = runeWidth (c # cs)"
  from False DecodeRune_tail[of c cs]
  have le: "w - 1 \<le> length cs" and cont: "list_all continuation (take (w - 1) cs)"
    by (simp_all add: w_def)
  have wpos: "0 < w" using runeWidth_pos[of "c # cs"] by (simp add: w_def)
  have "search re cs = search re (take (w - 1) cs @ drop (w - 1) cs)" by simp
  also have "\<dots> = map_option (\<lambda>(k, n). (length (take (w - 1) cs) + k, n))
      (search re (drop (w - 1) cs))"
    using as cont by (rule search_skip_continuation)
  finally have a: "search re cs =
      map_option (\<lambda>(k, n). (w - 1 + k, n)) (search re (drop (w - 1) cs))"
    using le by (simp add: min_def)
  have d: "drop w (c # cs) = drop (w - 1) cs"
    using wpos by (cases w) simp_all
  have "search re (c # cs) = map_option (\<lambda>(k, n). (w + k, n)) (search re (drop (w - 1) cs))"
    using e d by (simp add: search.simps[of re "c # cs"] w_def[symmetric])
  with a wpos show ?thesis
    by (simp add: option.map_comp comp_def case_prod_unfold)
qed


lemma ends_Literal_Nil: "ends (Literal r) [] = []"
  by simp

lemma ends_Literal_ascii:
  "r < 128 \<Longrightarrow> ends (Literal r) (c # cs) = (if of_char c = r then [cs] else [])"
proof (cases "(of_char c :: nat) < 128")
  case True
  then show ?thesis by (simp add: DecodeRune_ascii runeWidth_ascii)
next
  case False
  assume r: "r < 128"
  from False have "128 \<le> fst (DecodeRuneInString (c # cs))"
    by (intro DecodeRune_high) simp
  with r False show ?thesis by auto
qed

lemma of_char_LF: "((of_char c :: nat) = 10) = (c = LF)"
  using of_char_eq_iff[of c LF, where ?'a = nat] by simp

lemma of_char_CR: "((of_char c :: nat) = 13) = (c = CR)"
  using of_char_eq_iff[of c CR, where ?'a = nat] by simp

lemma of_char_SP: "((of_char c :: nat) = 32) = (c = SP)"
  using of_char_eq_iff[of c SP, where ?'a = nat] by simp

lemma of_char_TAB: "((of_char c :: nat) = 9) = (c = TAB)"
  using of_char_eq_iff[of c TAB, where ?'a = nat] by simp

lemma of_char_FF: "((of_char c :: nat) = 12) = (c = FF)"
  using of_char_eq_iff[of c FF, where ?'a = nat] by simp

lemma ends_LF: "ends (Literal 0x0A) (c # cs) = (if c = LF then [cs] else [])"
  by (simp add: ends_Literal_ascii of_char_LF del: ends.simps)

lemma ends_CR: "ends (Literal 0x0D) (c # cs) = (if c = CR then [cs] else [])"
  by (simp add: ends_Literal_ascii of_char_CR del: ends.simps)

lemma ends_SP: "ends (Literal 0x20) (c # cs) = (if c = SP then [cs] else [])"
  by (simp add: ends_Literal_ascii of_char_SP del: ends.simps)

lemma isSpace_ranges:
  "(of_char c :: nat) < 128 \<Longrightarrow>
   inRanges [(0x09, 0x0A), (0x0C, 0x0D), (0x20, 0x20)] (of_char c) = isSpace c"
  by (auto simp: inRanges_def isSpace_def of_char_LF[symmetric] of_char_CR[symmetric]
      of_char_SP[symmetric] of_char_TAB[symmetric] of_char_FF[symmetric])

lemma isSpace_ascii: "isSpace c \<Longrightarrow> (of_char c :: nat) < 128"
  by (auto simp: isSpace_def)

lemma ends_perlSpace: "ends perlSpace (c # cs) = (if isSpace c then [cs] else [])"
proof (cases "(of_char c :: nat) < 128")
  case True
  then show ?thesis
    by (simp add: perlSpace_def DecodeRune_ascii runeWidth_ascii isSpace_ranges)
next
  case False
  then have "128 \<le> fst (DecodeRuneInString (c # cs))"
    by (intro DecodeRune_high) simp
  then have "\<not> inRanges [(0x09, 0x0A), (0x0C, 0x0D), (0x20, 0x20)]
      (fst (DecodeRuneInString (c # cs)))"
    by (auto simp: inRanges_def)
  with False isSpace_ascii[of c] show ?thesis by (auto simp: perlSpace_def)
qed

lemma ends_perlSpace_Nil: "ends perlSpace [] = []"
  by (simp add: perlSpace_def)

lemma ends_Star_atom:
  assumes "\<And>c cs. ends a (c # cs) = (if P c then [cs] else [])" and "ends a [] = []"
  shows "\<exists>ts. ends (Star a) s = dropWhile P s # ts"
proof (induction s)
  case Nil
  show ?case by (simp add: ends.simps(5)[of a "[]"] assms)
next
  case (Cons c cs)
  then obtain ts where "ends (Star a) cs = dropWhile P cs # ts" by blast
  then show ?case by (simp add: ends.simps(5)[of a "c # cs"] assms)
qed

lemma ends_Star_perlSpace: "\<exists>ts. ends (Star perlSpace) s = dropWhile isSpace s # ts"
  by (rule ends_Star_atom) (simp_all add: ends_perlSpace ends_perlSpace_Nil)

lemma ends_paraPattern_Nil: "ends paraPattern [] = []"
  by (simp add: paraPattern_def)

lemma ends_paraPattern_other: "\<not> isBreak c \<Longrightarrow> ends paraPattern (c # cs) = []"
  by (simp add: paraPattern_def ends_LF ends_CR isBreak_def del: ends.simps(1))

lemma ends_paraPattern_break:
  "isBreak c \<Longrightarrow> \<exists>ts. ends paraPattern (c # cs) = dropWhile isSpace cs # ts"
proof -
  assume b: "isBreak c"
  obtain ts where ts: "ends (Star perlSpace) cs = dropWhile isSpace cs # ts"
    using ends_Star_perlSpace by blast
  from b show ?thesis
    by (auto simp: paraPattern_def ends_LF ends_CR isBreak_def ts simp del: ends.simps(1))
qed

lemma nonEmpty_paraPattern: "nonEmpty paraPattern"
  by (simp add: paraPattern_def)

lemma paraPattern_ascii: "128 \<le> (of_char c :: nat) \<Longrightarrow> ends paraPattern (c # cs) = []"
  by (rule ends_paraPattern_other) (auto simp: isBreak_def)

lemma search_paraPattern_Nil: "search paraPattern [] = None"
  by (simp add: search.simps[of _ "[]"] ends_paraPattern_Nil)

lemma search_paraPattern_break:
  "isBreak c \<Longrightarrow>
   search paraPattern (c # cs) = Some (0, Suc (length (takeWhile isSpace cs)))"
proof -
  assume "isBreak c"
  from ends_paraPattern_break[OF this, of cs] obtain ts where
    "ends paraPattern (c # cs) = dropWhile isSpace cs # ts" by blast
  moreover have "length (takeWhile isSpace cs) + length (dropWhile isSpace cs) = length cs"
    by (metis length_append takeWhile_dropWhile_id)
  then have "length cs - length (dropWhile isSpace cs) = length (takeWhile isSpace cs)"
    by simp
  moreover have "length (dropWhile isSpace cs) \<le> length cs" by (rule length_dropWhile_le)
  ultimately show ?thesis
    by (simp add: search.simps[of _ "c # cs"] Suc_diff_le)
qed

lemma search_paraPattern_other:
  "\<not> isBreak c \<Longrightarrow>
   search paraPattern (c # cs) = map_option (\<lambda>(k, n). (Suc k, n)) (search paraPattern cs)"
  by (rule search_skip_byte) (simp_all add: paraPattern_ascii ends_paraPattern_other)

lemma splitS_Nil: "nonEmpty re \<Longrightarrow> splitS re [] = [[]]"
  by (simp add: splitS.simps[of re "[]"] search_Nil_nonEmpty)

lemma splitS_match:
  "search re s = Some (0, n) \<Longrightarrow> 0 < n \<Longrightarrow> splitS re s = [] # splitS re (drop n s)"
  by (simp add: splitS.simps[of re s])

lemma splitS_skip:
  assumes "nonEmpty re"
    and "search re (c # cs) = map_option (\<lambda>(k, n). (Suc k, n)) (search re cs)"
  shows "splitS re (c # cs) = prepend c (splitS re cs)"
proof (cases "search re cs")
  case None
  with assms show ?thesis
    by (simp add: splitS.simps[of re "c # cs"] splitS.simps[of re cs] prepend_def)
next
  case (Some kn)
  obtain k n where kn: "kn = (k, n)" by (cases kn)
  from search_nonEmpty[OF assms(1)] Some kn have "0 < n" by simp
  with assms Some kn show ?thesis
    by (simp add: splitS.simps[of re "c # cs"] splitS.simps[of re cs] prepend_def)
qed

lemma splitS_paraPattern: "splitS paraPattern s = paraSplit s"
proof (induction s rule: paraSplit.induct)
  case 1
  show ?case by (simp add: splitS_Nil nonEmpty_paraPattern)
next
  case (2 c cs)
  show ?case
  proof (cases "isBreak c")
    case True
    have "drop (Suc (length (takeWhile isSpace cs))) (c # cs) = dropWhile isSpace cs"
      by (simp add: dropWhile_eq_drop)
    with True "2.IH"(1) splitS_match[OF search_paraPattern_break[OF True, of cs]]
    show ?thesis by simp
  next
    case False
    with "2.IH"(2) splitS_skip[OF nonEmpty_paraPattern search_paraPattern_other[OF False, of cs]]
    show ?thesis by simp
  qed
qed

lemma Split_paraPattern: "Split paraPattern s = paraSplit s"
  by (simp add: Split_splitS nonEmpty_paraPattern splitS_paraPattern)

lemma paraSplit_not_Nil: "paraSplit s \<noteq> []"
  by (induction s rule: paraSplit.induct) (auto simp: prepend_def split: list.splits)

lemma Join_wrap:
  "xs \<noteq> [] \<Longrightarrow> a @ Join xs (b @ a) @ b = concat (map (\<lambda>x. a @ x @ b) xs)"
proof (induction xs)
  case Nil
  then show ?case by simp
next
  case (Cons x xs)
  show ?case
  proof (cases xs)
    case Nil
    then show ?thesis by simp
  next
    case (Cons y ys)
    with Cons.IH have "a @ Join (y # ys) (b @ a) @ b = concat (map (\<lambda>x. a @ x @ b) (y # ys))"
      by simp
    with Cons show ?thesis by simp
  qed
qed

lemma pFilter_p_spec: "pFilter s = p_spec s"
  using Join_wrap[OF paraSplit_not_Nil, of "''<p>''" s "''</p>''"]
  by (simp add: pFilter_def p_spec_def Split_paraPattern)

lemma paraFilter_para_spec: "paraFilter s = para_spec s"
  using Join_wrap[OF paraSplit_not_Nil, of "''<para>''" s "''</para>''"]
  by (simp add: paraFilter_def para_spec_def Split_paraPattern)

lemma pFilter_example:
  "pFilter (''a'' @ [LF] @ ''b'' @ [LF, LF] @ ''c'') = ''<p>a</p><p>b</p><p>c</p>''"
  by (simp add: pFilter_p_spec p_spec_def isBreak_def isSpace_def prepend_def)

text \<open>
  C7. \<open>p\<close> splits its input at every line break (\<open>\n\<close>, \<open>\r\<close> or \<open>\r\n\<close>) followed
  by any run of whitespace, wraps each segment in \<open><p>\<close> and \<open></p>\<close> and joins them
  with no separator; \<open>para\<close> does the same with \<open><para>\<close>; and
  \<open>p("a\nb\n\nc")\<close> is \<open><p>a</p><p>b</p><p>c</p>\<close>.
\<close>

theorem pFilter_splits_at_line_breaks:
  "pFilter s = p_spec s \<and> paraFilter s = para_spec s
   \<and> pFilter (''a'' @ [LF] @ ''b'' @ [LF, LF] @ ''c'') = ''<p>a</p><p>b</p><p>c</p>''"
  using pFilter_p_spec paraFilter_para_spec pFilter_example by simp

section \<open>The reflow filter\<close>

lemma Replace_CRLF: "Replace s [CR, LF] [LF] = normalizeCRLF s"
proof (induction s rule: normalizeCRLF.induct)
  case (1 c d cs)
  then show ?case by (auto simp: Replace.simps[of "c # d # cs"])
qed (simp_all add: Replace.simps[of "[]"] Replace.simps[of "[v]" for v])

lemma Replace_breaks:
  "Replace (Replace p [CR] '' '') [LF] '' '' = map (\<lambda>c. if isBreak c then SP else c) p"
  by (auto simp: Replace_char isBreak_def)

text \<open>The pattern of the runs of spaces.\<close>

lemma length_takeWhile_dropWhile:
  "length xs - length (dropWhile P xs) = length (takeWhile P xs)"
proof -
  have "length (takeWhile P xs) + length (dropWhile P xs) = length xs"
    by (metis length_append takeWhile_dropWhile_id)
  then show ?thesis by simp
qed

lemma ends_Star_SP:
  "\<exists>ts. ends (Star (Capture (Literal 0x20))) s = dropWhile (\<lambda>x. x = SP) s # ts"
  by (rule ends_Star_atom) (simp_all add: ends_SP ends_Literal_Nil del: ends.simps(1))

lemma nonEmpty_spacePattern: "nonEmpty spacePattern"
  by (simp add: spacePattern_def Plus_def)

lemma ends_spacePattern_Nil: "ends spacePattern [] = []"
  by (simp add: spacePattern_def Plus_def)

lemma ends_spacePattern_other: "c \<noteq> SP \<Longrightarrow> ends spacePattern (c # cs) = []"
  by (simp add: spacePattern_def Plus_def ends_SP del: ends.simps(1))

lemma ends_spacePattern_SP:
  "\<exists>ts. ends spacePattern (SP # cs) = dropWhile (\<lambda>x. x = SP) cs # ts"
  using ends_Star_SP[of cs]
  by (auto simp: spacePattern_def Plus_def ends_SP simp del: ends.simps(1))

lemma search_spacePattern_SP:
  "search spacePattern (SP # cs) = Some (0, Suc (length (takeWhile (\<lambda>x. x = SP) cs)))"
proof -
  from ends_spacePattern_SP[of cs] obtain ts where
    "ends spacePattern (SP # cs) = dropWhile (\<lambda>x. x = SP) cs # ts" by blast
  moreover have "length (dropWhile (\<lambda>x. x = SP) cs) \<le> length cs"
    by (rule length_dropWhile_le)
  ultimately show ?thesis
    by (simp add: search.simps[of _ "SP # cs"] Suc_diff_le length_takeWhile_dropWhile)
qed

lemma search_spacePattern_other:
  "c \<noteq> SP \<Longrightarrow>
   search spacePattern (c # cs) = map_option (\<lambda>(k, n). (Suc k, n)) (search spacePattern cs)"
proof (rule search_skip_byte)
  fix d :: char and ds
  assume "128 \<le> (of_char d :: nat)"
  then have "d \<noteq> SP" by auto
  then show "ends spacePattern (d # ds) = []" by (rule ends_spacePattern_other)
next
  assume "c \<noteq> SP"
  then show "ends spacePattern (c # cs) = []" by (rule ends_spacePattern_other)
qed

lemma replS_Nil: "nonEmpty re \<Longrightarrow> replS re [] repl = []"
  by (simp add: replS.simps[of re "[]"] search_Nil_nonEmpty)

lemma replS_match:
  "search re s = Some (0, n) \<Longrightarrow> 0 < n \<Longrightarrow> replS re s repl = repl @ replS re (drop n s) repl"
  by (simp add: replS.simps[of re s])

lemma replS_spacePattern: "replS spacePattern s '' '' = collapseSpaces s"
proof (induction s rule: collapseSpaces.induct)
  case 1
  show ?case by (simp add: replS_Nil nonEmpty_spacePattern)
next
  case (2 c cs)
  show ?case
  proof (cases "c = SP")
    case True
    have "drop (Suc (length (takeWhile (\<lambda>x. x = SP) cs))) (SP # cs) = dropWhile (\<lambda>x. x = SP) cs"
      by (simp add: dropWhile_eq_drop)
    with True "2.IH"(1) replS_match[OF search_spacePattern_SP[of cs], of "'' ''"]
    show ?thesis by simp
  next
    case False
    with "2.IH"(2)
      replS_step_skip[OF nonEmpty_spacePattern search_spacePattern_other[OF False, of cs], of "'' ''"]
    show ?thesis by simp
  qed
qed

text \<open>
  The pattern of the paragraph breaks; \<open>lineBreak\<close> is the group that it repeats. The
  first match of the repetition at a run of line breaks is the whole run, whichever
  alternatives the search takes.
\<close>

definition lineBreak :: regex where
  "lineBreak = Capture (Alternate (Concat (Literal 0x0D) (Literal 0x0A))
                         (Alternate (Literal 0x0D) (Literal 0x0A)))"

lemma multiNewlinePattern_lineBreak:
  "multiNewlinePattern = Concat lineBreak (Concat lineBreak (Star lineBreak))"
  by (simp add: multiNewlinePattern_def RepeatMin2_def lineBreak_def)

lemma ends_lineBreak_Nil: "ends lineBreak [] = []"
  by (simp add: lineBreak_def)

lemma ends_lineBreak_other: "\<not> isBreak c \<Longrightarrow> ends lineBreak (c # cs) = []"
  by (simp add: lineBreak_def ends_LF ends_CR isBreak_def del: ends.simps(1))

lemma ends_lineBreak_LF: "ends lineBreak (LF # cs) = [cs]"
  by (simp add: lineBreak_def ends_LF ends_CR del: ends.simps(1))

lemma ends_lineBreak_CRLF: "ends lineBreak (CR # LF # cs) = [cs, LF # cs]"
  by (simp add: lineBreak_def ends_LF ends_CR del: ends.simps(1))

lemma ends_lineBreak_CR: "cs = [] \<or> hd cs \<noteq> LF \<Longrightarrow> ends lineBreak (CR # cs) = [cs]"
  by (cases cs) (auto simp: lineBreak_def ends_LF ends_CR ends_Literal_Nil simp del: ends.simps(1))

lemma ends_lineBreak_break:
  "isBreak c \<Longrightarrow>
   \<exists>u us. ends lineBreak (c # cs) = u # us \<and> length u \<le> length cs
     \<and> dropWhile isBreak u = dropWhile isBreak cs"
proof -
  assume b: "isBreak c"
  show ?thesis
  proof (cases "c = CR \<and> cs \<noteq> [] \<and> hd cs = LF")
    case True
    then obtain t where "cs = LF # t" by (cases cs) auto
    with True show ?thesis by (simp add: ends_lineBreak_CRLF isBreak_def)
  next
    case False
    with b have "ends lineBreak (c # cs) = [cs]"
      by (auto simp: isBreak_def ends_lineBreak_LF ends_lineBreak_CR)
    then show ?thesis by simp
  qed
qed

lemma ends_Star_lineBreak: "\<exists>ts. ends (Star lineBreak) s = dropWhile isBreak s # ts"
proof (induction "length s" arbitrary: s rule: less_induct)
  case less
  show ?case
  proof (cases s)
    case Nil
    then show ?thesis by (simp add: ends.simps(5)[of lineBreak "[]"] ends_lineBreak_Nil)
  next
    case (Cons c cs)
    show ?thesis
    proof (cases "isBreak c")
      case False
      with Cons show ?thesis
        by (simp add: ends.simps(5)[of lineBreak "c # cs"] ends_lineBreak_other)
    next
      case True
      from ends_lineBreak_break[OF True, of cs] obtain u us where
        u: "ends lineBreak (c # cs) = u # us" "length u \<le> length cs"
           "dropWhile isBreak u = dropWhile isBreak cs" by blast
      from u(2) Cons have "length u < length s" by simp
      from less[OF this] obtain ts where "ends (Star lineBreak) u = dropWhile isBreak u # ts"
        by blast
      with u True Cons show ?thesis
        by (simp add: ends.simps(5)[of lineBreak "c # cs"] less_Suc_eq_le)
    qed
  qed
qed

lemma ends_lineBreak_Star_Nil: "ends (Concat lineBreak (Star lineBreak)) [] = []"
  by (simp add: ends_lineBreak_Nil)

lemma ends_lineBreak_Star_other:
  "\<not> isBreak c \<Longrightarrow> ends (Concat lineBreak (Star lineBreak)) (c # cs) = []"
  by (simp add: ends_lineBreak_other)

lemma ends_lineBreak_Star_break:
  "isBreak c \<Longrightarrow>
   \<exists>ts. ends (Concat lineBreak (Star lineBreak)) (c # cs) = dropWhile isBreak cs # ts"
proof -
  assume b: "isBreak c"
  from ends_lineBreak_break[OF b, of cs] obtain u us where
    u: "ends lineBreak (c # cs) = u # us" "dropWhile isBreak u = dropWhile isBreak cs" by blast
  from ends_Star_lineBreak[of u] obtain ts where "ends (Star lineBreak) u = dropWhile isBreak u # ts"
    by blast
  with u show ?thesis by simp
qed

lemma ends_multiNewline_unfold:
  "ends multiNewlinePattern s =
     concat (map (ends (Concat lineBreak (Star lineBreak))) (ends lineBreak s))"
  unfolding multiNewlinePattern_lineBreak by (rule ends.simps(3))

lemma ends_multiNewline_none:
  "\<not> (isBreak c \<and> cs \<noteq> [] \<and> isBreak (hd cs)) \<Longrightarrow> ends multiNewlinePattern (c # cs) = []"
proof (cases "isBreak c")
  case False
  then show ?thesis by (simp add: multiNewlinePattern_lineBreak ends_lineBreak_other)
next
  case True
  assume "\<not> (isBreak c \<and> cs \<noteq> [] \<and> isBreak (hd cs))"
  with True have n: "cs = [] \<or> \<not> isBreak (hd cs)" by auto
  then have "cs = [] \<or> hd cs \<noteq> LF" by (auto simp: isBreak_def)
  with True have e: "ends lineBreak (c # cs) = [cs]"
    by (auto simp: isBreak_def ends_lineBreak_LF ends_lineBreak_CR)
  have "ends (Concat lineBreak (Star lineBreak)) cs = []"
    using n by (cases cs) (simp_all add: ends_lineBreak_Nil ends_lineBreak_other)
  with e show ?thesis
    by (simp add: ends_multiNewline_unfold del: ends.simps(3))
qed

lemma ends_multiNewline_run:
  assumes "isBreak c" and "isBreak d"
  shows "\<exists>ts. ends multiNewlinePattern (c # d # cs) = dropWhile isBreak cs # ts"
proof (cases "c = CR \<and> d = LF")
  case False
  with assms have e: "ends lineBreak (c # d # cs) = [d # cs]"
    by (auto simp: isBreak_def ends_lineBreak_LF ends_lineBreak_CR)
  from ends_lineBreak_Star_break[OF assms(2), of cs] obtain ts where
    "ends (Concat lineBreak (Star lineBreak)) (d # cs) = dropWhile isBreak cs # ts" by blast
  with e show ?thesis
    by (simp add: ends_multiNewline_unfold del: ends.simps(3))
next
  case True
  then have e: "ends lineBreak (c # d # cs) = [cs, LF # cs]"
    by (simp add: ends_lineBreak_CRLF)
  from ends_lineBreak_Star_break[OF assms(2), of cs] obtain ts2 where
    t2: "ends (Concat lineBreak (Star lineBreak)) (LF # cs) = dropWhile isBreak cs # ts2"
    using True by blast
  show ?thesis
  proof (cases "cs \<noteq> [] \<and> isBreak (hd cs)")
    case T: True
    then obtain x xs where cs: "cs = x # xs" and x: "isBreak x" by (cases cs) auto
    from ends_lineBreak_Star_break[OF x, of xs] obtain ts1 where
      "ends (Concat lineBreak (Star lineBreak)) (x # xs) = dropWhile isBreak xs # ts1" by blast
    with e t2 cs x show ?thesis
      by (simp add: ends_multiNewline_unfold del: ends.simps(3))
  next
    case F: False
    then have "ends (Concat lineBreak (Star lineBreak)) cs = []"
      by (cases cs) (simp_all add: ends_lineBreak_Nil ends_lineBreak_other)
    with e t2 show ?thesis
      by (simp add: ends_multiNewline_unfold del: ends.simps(3))
  qed
qed

lemma nonEmpty_multiNewlinePattern: "nonEmpty multiNewlinePattern"
  by (simp add: multiNewlinePattern_def RepeatMin2_def)

lemma ends_multiNewline_Nil: "ends multiNewlinePattern [] = []"
  by (simp add: multiNewlinePattern_lineBreak ends_lineBreak_Nil)

lemma search_multiNewline_run:
  assumes "isBreak c" and "cs \<noteq> []" and "isBreak (hd cs)"
  shows "\<exists>n. 0 < n \<and> search multiNewlinePattern (c # cs) = Some (0, n)
           \<and> drop n (c # cs) = dropWhile isBreak cs"
proof -
  from assms obtain d t where cs: "cs = d # t" and d: "isBreak d" by (cases cs) auto
  from ends_multiNewline_run[OF assms(1) d, of t] obtain ts where
    e: "ends multiNewlinePattern (c # cs) = dropWhile isBreak t # ts" using cs by blast
  define n where "n = length (c # cs) - length (dropWhile isBreak t)"
  have le: "length (dropWhile isBreak t) \<le> length t" by (rule length_dropWhile_le)
  then have n: "n = Suc (Suc (length (takeWhile isBreak t)))"
    using length_takeWhile_dropWhile[of t isBreak] by (simp add: n_def cs)
  have "drop n (c # cs) = dropWhile isBreak t"
    by (simp add: n cs dropWhile_eq_drop)
  moreover have "search multiNewlinePattern (c # cs) = Some (0, n)"
    by (simp add: search.simps[of _ "c # cs"] e n_def)
  ultimately show ?thesis using n d cs by auto
qed

lemma search_multiNewline_other:
  assumes "\<not> (isBreak c \<and> cs \<noteq> [] \<and> isBreak (hd cs))"
  shows "search multiNewlinePattern (c # cs) =
     map_option (\<lambda>(k, n). (Suc k, n)) (search multiNewlinePattern cs)"
proof (rule search_skip_byte)
  fix d :: char and ds
  assume "128 \<le> (of_char d :: nat)"
  then have "\<not> isBreak d" by (auto simp: isBreak_def)
  then show "ends multiNewlinePattern (d # ds) = []"
    by (intro ends_multiNewline_none) simp
next
  from assms show "ends multiNewlinePattern (c # cs) = []" by (rule ends_multiNewline_none)
qed

lemma splitS_multiNewlinePattern: "splitS multiNewlinePattern s = runSplit s"
proof (induction s rule: runSplit.induct)
  case 1
  show ?case by (simp add: splitS_Nil nonEmpty_multiNewlinePattern)
next
  case (2 c cs)
  show ?case
  proof (cases "isBreak c \<and> cs \<noteq> [] \<and> isBreak (hd cs)")
    case True
    then obtain n where n: "0 < n" "search multiNewlinePattern (c # cs) = Some (0, n)"
      "drop n (c # cs) = dropWhile isBreak cs"
      using search_multiNewline_run[of c cs] by blast
    from splitS_match[OF n(2) n(1)] n(3) True "2.IH"(1) show ?thesis by simp
  next
    case False
    from splitS_skip[OF nonEmpty_multiNewlinePattern search_multiNewline_other[OF False]]
      False "2.IH"(2)
    show ?thesis by auto
  qed
qed

lemma nobrFilter_nobr_spec: "nobrFilter s = nobr_spec s"
  by (simp add: nobrFilter_def nobr_spec_def Let_def Replace_CRLF Replace_breaks
      Split_splitS nonEmpty_multiNewlinePattern splitS_multiNewlinePattern
      ReplaceAllString_replS nonEmpty_spacePattern replS_spacePattern)

lemma nobrFilter_example:
  "nobrFilter (''line one'' @ [LF] @ ''line two'' @ [LF, LF] @ ''second para'')
     = ''line one line two'' @ [LF, LF] @ ''second para''"
  by (simp add: nobrFilter_nobr_spec nobr_spec_def isBreak_def prepend_def)

text \<open>
  C4. \<open>nobr\<close> replaces \<open>\r\n\<close> with \<open>\n\<close>, splits at the runs of two or more
  line-break characters, replaces in each paragraph every remaining \<open>\r\<close> and \<open>\n\<close>
  with a space, collapses every run of spaces to one space, and joins the paragraphs
  with \<open>\n\n\<close>; and \<open>nobr("line one\nline two\n\nsecond para")\<close> is
  \<open>"line one line two\n\nsecond para"\<close>.
\<close>

theorem nobrFilter_reflows_paragraphs:
  "nobrFilter s = nobr_spec s
   \<and> nobrFilter (''line one'' @ [LF] @ ''line two'' @ [LF, LF] @ ''second para'')
       = ''line one line two'' @ [LF, LF] @ ''second para''"
  using nobrFilter_nobr_spec nobrFilter_example by simp

section \<open>The generation driver\<close>

lemma renderFails_iff: "renderFails env opts file e = (snd (renderTemplate env opts file) = Some e)"
  by (auto simp: renderFails_def renderTemplate_def split: sum.splits)

lemma generateFile_ok:
  "snd (renderTemplate env opts f) = None \<Longrightarrow>
   generateFile env opts gen f = (gen @ [generated env opts f], None)"
  by (cases "renderTemplate env opts f")
    (simp add: generateFile_def generated_def outputName_def Let_def)

lemma generateFile_err:
  "snd (renderTemplate env opts f) = Some e \<Longrightarrow>
   generateFile env opts gen f = (gen @ [generated env opts f], Some (WrapError (outputName opts f) e))"
  by (cases "renderTemplate env opts f")
    (simp add: generateFile_def generated_def outputName_def Let_def)

lemma run_prefix_ok:
  "\<forall>g \<in> set pre. Generate g \<longrightarrow> snd (renderTemplate env opts g) = None \<Longrightarrow>
   run env opts gen (pre @ rest) =
     run env opts (gen @ map (generated env opts) (filter Generate pre)) rest"
proof (induction pre arbitrary: gen)
  case Nil
  then show ?case by simp
next
  case (Cons g pre)
  have IH: "run env opts gen' (pre @ rest) =
      run env opts (gen' @ map (generated env opts) (filter Generate pre)) rest" for gen'
    using Cons.IH Cons.prems by simp
  show ?case
  proof (cases "Generate g")
    case True
    with Cons.prems have "snd (renderTemplate env opts g) = None" by simp
    then have "generateFile env opts gen g = (gen @ [generated env opts g], None)"
      by (rule generateFile_ok)
    with True show ?thesis by (simp add: IH)
  next
    case False
    then show ?thesis by (simp add: IH)
  qed
qed

text \<open>
  C9. When rendering a file to be generated fails, in the resolution, the parse or
  the execution of the template, and the files before it rendered without error,
  then the driver returns that error wrapped with the name of the output file, which
  is the input file's prefix, a dot and the format; the message of the wrapped error
  holds that name and the cause's message; and the plugin holds the files up to the
  failing one and none of the files after it.
\<close>

theorem run_stops_at_first_error:
  assumes "Generate f"
    and "renderFails env opts f e"
    and "\<forall>g \<in> set pre. Generate g \<longrightarrow> snd (renderTemplate env opts g) = None"
  shows "run env opts gen (pre @ f # post) =
           (gen @ map (generated env opts) (filter Generate pre @ [f]),
            Some (WrapError (outputName opts f) e))
         \<and> Error (WrapError (outputName opts f) e) =
             ''issue generating '' @ GeneratedFilenamePrefix f @ ''.'' @ Format opts
               @ '': '' @ Error e
         \<and> Unwrap (WrapError (outputName opts f) e) = Some e"
proof -
  from assms(2) have e: "snd (renderTemplate env opts f) = Some e"
    by (simp add: renderFails_iff)
  have "run env opts gen (pre @ f # post) =
      run env opts (gen @ map (generated env opts) (filter Generate pre)) (f # post)"
    using assms(3) by (rule run_prefix_ok)
  also have "\<dots> = (gen @ map (generated env opts) (filter Generate pre) @ [generated env opts f],
      Some (WrapError (outputName opts f) e))"
    using assms(1) e by (simp add: generateFile_err)
  finally show ?thesis by (simp add: outputName_def)
qed

lemma example_render:
  "renderTemplate example_env \<lparr>Format = ''markdown'', TemplateDir = []\<rparr> file =
     (if GeneratedFilenamePrefix file = ''bad'' then (''par'', Some (TemplateError ''boom''))
      else (''doc'', None))"
proof -
  have fs: "getTemplateFS example_env \<lparr>Format = ''markdown'', TemplateDir = []\<rparr> =
      Inr (\<lambda>name. if ValidPath name
             then defaultTemplates example_env (''templates'' @ ''/'' @ name) else None)"
    by (simp add: getTemplateFS_def Sub_def ValidPath_templates)
  have gl: "Glob example_env (\<lambda>name. if ValidPath name
             then defaultTemplates example_env (''templates'' @ ''/'' @ name) else None)
           ''markdown.tpl'' = Inr [''markdown.tpl'']"
    by (simp add: Glob_def not_hasMeta_markdown_tpl ValidPath_markdown_tpl example_env_def)
  have ps: "ParseFS example_env (\<lambda>name. if ValidPath name
             then defaultTemplates example_env (''templates'' @ ''/'' @ name) else None)
           ''markdown.tpl'' = Inr ()"
    by (simp add: ParseFS_def gl) (simp add: example_env_def)
  show ?thesis
    by (simp add: renderTemplate_def fs ps) (simp add: example_env_def)
qed

theorem run_stops_at_first_error_witness:
  "run example_env \<lparr>Format = ''markdown'', TemplateDir = []\<rparr> [] example_files =
     ([\<lparr>gf_filename = ''a.markdown'', gf_buf = ''doc''\<rparr>,
       \<lparr>gf_filename = ''bad.markdown'', gf_buf = ''par''\<rparr>],
      Some (WrapError ''bad.markdown'' (TemplateError ''boom'')))"
  using run_stops_at_first_error [of
      "\<lparr>Generate = True, GeneratedFilenamePrefix = ''bad'', GoImportPath = ''p''\<rparr>"
      example_env "\<lparr>Format = ''markdown'', TemplateDir = []\<rparr>" "TemplateError ''boom''"
      "take 2 example_files" "[]" "drop 3 example_files"]
  by (simp add: renderFails_iff example_render example_files_def generated_def outputName_def)

section \<open>Template resolution with an override directory\<close>

lemma ValidPath_tpl_markdown_tpl: "ValidPath ''tpl/markdown.tpl''"
  by (simp add: ValidPath_def ValidString_ascii validElems.simps)

lemma getTemplateFS_override:
  assumes "TemplateDir opts \<noteq> []" and "ValidPath (TemplateDir opts)"
    and "TemplateDir opts \<noteq> ''.''"
  shows "getTemplateFS env opts =
     Inr (\<lambda>name. if ValidPath name \<and> ValidPath (TemplateDir opts @ ''/'' @ name)
            then osFiles env (TemplateDir opts @ ''/'' @ TemplateDir opts @ ''/'' @ name)
            else None)"
  using assms by (auto simp: getTemplateFS_def Sub_def DirFS_def Let_def fun_eq_iff)

lemma override_render:
  "renderTemplate (override_env path) override_opts file =
     (if path = ''tpl/tpl/markdown.tpl'' then (''doc'', None)
      else ([], Some (NoFilesError ''markdown.tpl'')))"
proof -
  define tFS :: FS where "tFS = (\<lambda>name.
     if ValidPath name \<and> ValidPath (''tpl'' @ ''/'' @ name)
     then osFiles (override_env path) (''tpl'' @ ''/'' @ ''tpl'' @ ''/'' @ name) else None)"
  have fs: "getTemplateFS (override_env path) override_opts = Inr tFS"
    using getTemplateFS_override [of override_opts "override_env path"]
    by (simp add: override_opts_def ValidPath_tpl tFS_def cong: if_cong)
  have lk: "tFS ''markdown.tpl'' = (if path = ''tpl/tpl/markdown.tpl'' then Some ''T'' else None)"
    using ValidPath_markdown_tpl ValidPath_tpl_markdown_tpl
    by (auto simp: tFS_def override_env_def)
  have gl: "Glob (override_env path) tFS ''markdown.tpl'' =
      (if path = ''tpl/tpl/markdown.tpl'' then Inr [''markdown.tpl''] else Inr [])"
    by (simp add: Glob_def not_hasMeta_markdown_tpl lk)
  have ps: "ParseFS (override_env path) tFS ''markdown.tpl'' =
      (if path = ''tpl/tpl/markdown.tpl'' then Inr () else Inl (NoFilesError ''markdown.tpl''))"
    by (simp add: ParseFS_def gl) (simp add: override_env_def)
  have fmt: "Format override_opts @ ''.tpl'' = ''markdown.tpl''"
    by (simp add: override_opts_def)
  show ?thesis
    unfolding renderTemplate_def fs fmt by (simp add: ps) (simp add: override_env_def)
qed

text \<open>
  C1. With the options \<open>templates=tpl\<close> and \<open>format=markdown\<close>: when the only file is
  \<open>tpl/markdown.tpl\<close>, directly in the override directory, the resolution fails with
  "pattern matches no files"; when the only file is \<open>tpl/tpl/markdown.tpl\<close>, so that
  the override directory itself has no \<open>markdown.tpl\<close>, the resolution succeeds; and
  for the absolute directory \<open>/srv/tpl\<close> the resolution fails in \<open>fs.Sub\<close> before any
  lookup. The embedded defaults hold \<open>markdown.tpl\<close> in all three cases and are not
  used.
\<close>

theorem override_directory_looked_up_twice:
  "renderTemplate (override_env ''tpl/markdown.tpl'') override_opts file
     = ([], Some (NoFilesError ''markdown.tpl''))
   \<and> renderTemplate (override_env ''tpl/tpl/markdown.tpl'') override_opts file
     = (''doc'', None)
   \<and> getTemplateFS (override_env ''/srv/tpl/markdown.tpl'')
        \<lparr>Format = ''markdown'', TemplateDir = ''/srv/tpl''\<rparr>
     = Inl (PathError ''sub'' ''/srv/tpl'')"
  by (simp add: override_render getTemplateFS_def Sub_def not_ValidPath_absolute)

end
